theory Spec2Isabelle
  imports Main "HOL-Library.Monad_Syntax"
begin

section \<open>Addresses and address ranges (address\_set.py)\<close>

text \<open>
  An \<open>Address\<close> wraps one unbounded Python integer, its \<open>offset\<close>; every comparison of
  the class compares the offsets, so an address is modelled by its offset.
\<close>

type_synonym Address = int

definition next_address :: "Address \<Rightarrow> Address" where
  "next_address a = a + 1"

definition previous :: "Address \<Rightarrow> Address" where
  "previous a = a - 1"

definition subtract :: "Address \<Rightarrow> Address \<Rightarrow> int" where
  "subtract a b = a - b"

datatype error = ValueError | TypeError

record AddressRange =
  start :: Address
  end_address :: Address

text \<open>\<open>AddressRange.__init__\<close>: raises \<open>ValueError\<close> when \<open>end < start\<close>.\<close>

definition AddressRange_init :: "Address \<Rightarrow> Address \<Rightarrow> error + AddressRange" where
  "AddressRange_init s e =
     (if e < s then Inl ValueError else Inr \<lparr>start = s, end_address = e\<rparr>)"

definition range_contains :: "AddressRange \<Rightarrow> Address \<Rightarrow> bool" where
  "range_contains r addr = (start r \<le> addr \<and> addr \<le> end_address r)"

definition get_min_address :: "AddressRange \<Rightarrow> Address" where
  "get_min_address r = start r"

definition get_max_address :: "AddressRange \<Rightarrow> Address" where
  "get_max_address r = end_address r"

definition get_length :: "AddressRange \<Rightarrow> int" where
  "get_length r = end_address r - start r + 1"

section \<open>Nodes, the node heap and the red-black tree\<close>

text \<open>
  Nodes are Python objects compared by identity and mutated in place, so they live in a
  heap indexed by references. The sentinel of a tree is an ordinary node of the heap.
  Its key and value are \<open>None\<close> in the source and are never read there (every read of
  \<open>key\<close> or \<open>value\<close> is guarded by a comparison with the sentinel); the model stores 0.
\<close>

type_synonym ref = nat

record RBNode =
  key :: Address
  val :: Address
  color :: bool
  left :: ref
  right :: ref
  parent :: ref

definition RED :: bool where "RED = True"
definition BLACK :: bool where "BLACK = False"

type_synonym heap = "ref \<Rightarrow> RBNode"

record store =
  nodes :: heap
  fresh :: ref

record RedBlackTree =
  nil :: ref
  root :: ref

definition set_color :: "heap \<Rightarrow> ref \<Rightarrow> bool \<Rightarrow> heap" where
  "set_color h a c = h(a := (h a)\<lparr>color := c\<rparr>)"

definition set_left :: "heap \<Rightarrow> ref \<Rightarrow> ref \<Rightarrow> heap" where
  "set_left h a v = h(a := (h a)\<lparr>left := v\<rparr>)"

definition set_right :: "heap \<Rightarrow> ref \<Rightarrow> ref \<Rightarrow> heap" where
  "set_right h a v = h(a := (h a)\<lparr>right := v\<rparr>)"

definition set_parent :: "heap \<Rightarrow> ref \<Rightarrow> ref \<Rightarrow> heap" where
  "set_parent h a v = h(a := (h a)\<lparr>parent := v\<rparr>)"

text \<open>\<open>RedBlackTree.__init__\<close>: allocates the sentinel, black, all three links to itself.\<close>

definition RedBlackTree_init :: "store \<Rightarrow> store \<times> RedBlackTree" where
  "RedBlackTree_init s =
     (let n = fresh s;
          h = (nodes s)(n := \<lparr>key = 0, val = 0, color = BLACK, left = n, right = n, parent = n\<rparr>)
      in (\<lparr>nodes = h, fresh = Suc n\<rparr>, \<lparr>nil = n, root = n\<rparr>))"

text \<open>\<open>left_rotate\<close> and \<open>right_rotate\<close>, statement by statement.\<close>

definition left_rotate :: "heap \<Rightarrow> RedBlackTree \<Rightarrow> ref \<Rightarrow> heap \<times> RedBlackTree" where
  "left_rotate h0 t0 x =
     (let y = right (h0 x);
          h1 = set_right h0 x (left (h0 y));
          h2 = (if left (h1 y) \<noteq> nil t0 then set_parent h1 (left (h1 y)) x else h1);
          h3 = set_parent h2 y (parent (h2 x));
          (h4, t1) =
            (if parent (h3 x) = nil t0 then (h3, t0\<lparr>root := y\<rparr>)
             else if x = left (h3 (parent (h3 x))) then (set_left h3 (parent (h3 x)) y, t0)
             else (set_right h3 (parent (h3 x)) y, t0));
          h5 = set_left h4 y x;
          h6 = set_parent h5 x y
      in (h6, t1))"

definition right_rotate :: "heap \<Rightarrow> RedBlackTree \<Rightarrow> ref \<Rightarrow> heap \<times> RedBlackTree" where
  "right_rotate h0 t0 y =
     (let x = left (h0 y);
          h1 = set_left h0 y (right (h0 x));
          h2 = (if right (h1 x) \<noteq> nil t0 then set_parent h1 (right (h1 x)) y else h1);
          h3 = set_parent h2 x (parent (h2 y));
          (h4, t1) =
            (if parent (h3 y) = nil t0 then (h3, t0\<lparr>root := x\<rparr>)
             else if y = right (h3 (parent (h3 y))) then (set_right h3 (parent (h3 y)) x, t0)
             else (set_left h3 (parent (h3 y)) x, t0));
          h5 = set_right h4 x y;
          h6 = set_parent h5 y x
      in (h6, t1))"

text \<open>
  One iteration of the loop of \<open>insert_fixup\<close> (the body of \<open>while\<close>), on the heap,
  the tree object and the local \<open>z\<close>.
\<close>

definition insert_fixup_body :: "heap \<Rightarrow> RedBlackTree \<Rightarrow> ref \<Rightarrow> heap \<times> RedBlackTree \<times> ref" where
  "insert_fixup_body h t z =
     (if parent (h z) = left (h (parent (h (parent (h z))))) then
        (let y = right (h (parent (h (parent (h z))))) in
         if color (h y) = RED then
           (let h1 = set_color h (parent (h z)) BLACK;
                h2 = set_color h1 y BLACK;
                h3 = set_color h2 (parent (h2 (parent (h2 z)))) RED
            in (h3, t, parent (h3 (parent (h3 z)))))
         else
           (let (h1, t1, z1) =
                  (if z = right (h (parent (h z)))
                   then (let z' = parent (h z); (h', t') = left_rotate h t z' in (h', t', z'))
                   else (h, t, z));
                h2 = set_color h1 (parent (h1 z1)) BLACK;
                h3 = set_color h2 (parent (h2 (parent (h2 z1)))) RED;
                (h4, t4) = right_rotate h3 t1 (parent (h3 (parent (h3 z1))))
            in (h4, t4, z1)))
      else
        (let y = left (h (parent (h (parent (h z))))) in
         if color (h y) = RED then
           (let h1 = set_color h (parent (h z)) BLACK;
                h2 = set_color h1 y BLACK;
                h3 = set_color h2 (parent (h2 (parent (h2 z)))) RED
            in (h3, t, parent (h3 (parent (h3 z)))))
         else
           (let (h1, t1, z1) =
                  (if z = left (h (parent (h z)))
                   then (let z' = parent (h z); (h', t') = right_rotate h t z' in (h', t', z'))
                   else (h, t, z));
                h2 = set_color h1 (parent (h1 z1)) BLACK;
                h3 = set_color h2 (parent (h2 (parent (h2 z1)))) RED;
                (h4, t4) = left_rotate h3 t1 (parent (h3 (parent (h3 z1))))
            in (h4, t4, z1))))"

text \<open>
  The loop itself: \<open>while z.parent.color == RED\<close>. A loop that does not return is the
  value \<open>None\<close>. The final \<open>self.root.color = BLACK\<close> is in \<open>insert_fixup\<close> below.
\<close>

partial_function (option) insert_fixup_loop ::
  "heap \<times> RedBlackTree \<times> ref \<Rightarrow> (heap \<times> RedBlackTree) option" where
  "insert_fixup_loop st =
     (if color (fst st (parent (fst st (snd (snd st))))) = RED
      then insert_fixup_loop (insert_fixup_body (fst st) (fst (snd st)) (snd (snd st)))
      else Some (fst st, fst (snd st)))"

declare insert_fixup_loop.simps [code]

definition insert_fixup :: "heap \<Rightarrow> RedBlackTree \<Rightarrow> ref \<Rightarrow> (heap \<times> RedBlackTree) option" where
  "insert_fixup h t z =
     (case insert_fixup_loop (h, t, z) of
        None \<Rightarrow> None
      | Some (h', t') \<Rightarrow> Some (set_color h' (root t') BLACK, t'))"

text \<open>The descent of \<open>RedBlackTree.insert\<close> (named \<open>insert_rb\<close> here): returns the last node \<open>y\<close> visited before the sentinel.\<close>

partial_function (option) insert_descend ::
  "heap \<Rightarrow> RedBlackTree \<Rightarrow> Address \<Rightarrow> ref \<Rightarrow> ref \<Rightarrow> ref option" where
  "insert_descend h t k y x =
     (if x \<noteq> nil t
      then insert_descend h t k x (if k < key (h x) then left (h x) else right (h x))
      else Some y)"

declare insert_descend.simps [code]

definition insert_rb :: "store \<Rightarrow> RedBlackTree \<Rightarrow> Address \<Rightarrow> Address \<Rightarrow> (store \<times> RedBlackTree) option" where
  "insert_rb s t k v =
     (let z = fresh s;
          h0 = (nodes s)(z := \<lparr>key = k, val = v, color = RED,
                               left = nil t, right = nil t, parent = nil t\<rparr>)
      in case insert_descend h0 t k (nil t) (root t) of
           None \<Rightarrow> None
         | Some y \<Rightarrow>
             (let h1 = set_parent h0 z y;
                  (h2, t2) =
                    (if y = nil t then (h1, t\<lparr>root := z\<rparr>)
                     else if key (h1 z) < key (h1 y) then (set_left h1 y z, t)
                     else (set_right h1 y z, t));
                  h3 = set_left h2 z (nil t);
                  h4 = set_right h3 z (nil t);
                  h5 = set_color h4 z RED
              in case insert_fixup h5 t2 z of
                   None \<Rightarrow> None
                 | Some (h6, t6) \<Rightarrow> Some (\<lparr>nodes = h6, fresh = Suc z\<rparr>, t6)))"

text \<open>\<open>inorder\<close>: the nodes of the tree, left subtree first.\<close>

partial_function (option) inorder_from :: "heap \<Rightarrow> RedBlackTree \<Rightarrow> ref \<Rightarrow> ref list option" where
  "inorder_from h t node =
     (if node \<noteq> nil t then
        do { ls \<leftarrow> inorder_from h t (left (h node));
             rs \<leftarrow> inorder_from h t (right (h node));
             Some (ls @ [node] @ rs) }
      else Some [])"

declare inorder_from.simps [code]

definition inorder :: "heap \<Rightarrow> RedBlackTree \<Rightarrow> ref list option" where
  "inorder h t = inorder_from h t (root t)"

text \<open>\<open>find_range_containing\<close>: the inner option is the source's \<open>Optional[RBNode]\<close>.\<close>

partial_function (option) find_from ::
  "heap \<Rightarrow> RedBlackTree \<Rightarrow> Address \<Rightarrow> ref \<Rightarrow> ref option option" where
  "find_from h t addr node =
     (if node \<noteq> nil t then
        (if addr < key (h node) then find_from h t addr (left (h node))
         else if addr > val (h node) then find_from h t addr (right (h node))
         else Some (Some node))
      else Some None)"

declare find_from.simps [code]

definition find_range_containing :: "heap \<Rightarrow> RedBlackTree \<Rightarrow> Address \<Rightarrow> ref option option" where
  "find_range_containing h t addr = find_from h t addr (root t)"

section \<open>AddressSet\<close>

record AddressSet =
  tree :: RedBlackTree
  address_count :: int

text \<open>\<open>AddressSet.add\<close>: a plain tree insertion of the bounds, then the count grows.\<close>

definition add :: "store \<Rightarrow> AddressSet \<Rightarrow> AddressRange \<Rightarrow> (store \<times> AddressSet) option" where
  "add s A r =
     (case insert_rb s (tree A) (start r) (end_address r) of
        None \<Rightarrow> None
      | Some (s', t') \<Rightarrow>
          Some (s', A\<lparr>tree := t', address_count := address_count A + get_length r\<rparr>))"

definition AddressSet_init :: "store \<Rightarrow> AddressRange option \<Rightarrow> (store \<times> AddressSet) option" where
  "AddressSet_init s init_range =
     (let (s1, t) = RedBlackTree_init s;
          A = \<lparr>tree = t, address_count = 0\<rparr>
      in case init_range of None \<Rightarrow> Some (s1, A) | Some r \<Rightarrow> add s1 A r)"

definition get_num_addresses :: "AddressSet \<Rightarrow> int" where
  "get_num_addresses A = address_count A"

text \<open>
  \<open>get_address_ranges\<close> builds \<open>AddressRange(node.key, node.value)\<close> for every node of
  the in-order walk; the first constructor that raises ends it. The generator is
  modelled by the list of what it yields, taken when the \<open>for\<close> loop starts.
\<close>

fun make_ranges :: "heap \<Rightarrow> ref list \<Rightarrow> error + AddressRange list" where
  "make_ranges h [] = Inr []"
| "make_ranges h (n # ns) =
     (case AddressRange_init (key (h n)) (val (h n)) of
        Inl e \<Rightarrow> Inl e
      | Inr r \<Rightarrow> (case make_ranges h ns of Inl e \<Rightarrow> Inl e | Inr rs \<Rightarrow> Inr (r # rs)))"

definition get_address_ranges :: "heap \<Rightarrow> AddressSet \<Rightarrow> (error + AddressRange list) option" where
  "get_address_ranges h A =
     (case inorder h (tree A) of None \<Rightarrow> None | Some ns \<Rightarrow> Some (make_ranges h ns))"

text \<open>The three overloads of \<open>contains\<close>: one address, two addresses, a set.\<close>

definition contains_address :: "heap \<Rightarrow> AddressSet \<Rightarrow> Address \<Rightarrow> bool option" where
  "contains_address h A addr =
     (case find_range_containing h (tree A) addr of
        None \<Rightarrow> None
      | Some node \<Rightarrow> Some (node \<noteq> None))"

function contains_bounds :: "heap \<Rightarrow> AddressSet \<Rightarrow> Address \<Rightarrow> Address \<Rightarrow> bool option" where
  "contains_bounds h A addr e =
     (if addr \<le> e then
        (case contains_address h A addr of
           None \<Rightarrow> None
         | Some b \<Rightarrow> if \<not> b then Some False else contains_bounds h A (next_address addr) e)
      else Some True)"
  by pat_completeness auto
termination
  by (relation "measure (\<lambda>(h, A, addr, e). nat (e - addr + 1))") (auto simp: next_address_def)

fun contains_ranges :: "heap \<Rightarrow> AddressSet \<Rightarrow> AddressRange list \<Rightarrow> bool option" where
  "contains_ranges h A [] = Some True"
| "contains_ranges h A (r # rs) =
     (case contains_bounds h A (get_min_address r) (get_max_address r) of
        None \<Rightarrow> None
      | Some b \<Rightarrow> if \<not> b then Some False else contains_ranges h A rs)"

definition contains_set :: "heap \<Rightarrow> AddressSet \<Rightarrow> AddressSet \<Rightarrow> (error + bool) option" where
  "contains_set h A S =
     (case get_address_ranges h S of
        None \<Rightarrow> None
      | Some (Inl e) \<Rightarrow> Some (Inl e)
      | Some (Inr rs) \<Rightarrow> map_option Inr (contains_ranges h A rs))"

text \<open>
  \<open>intersect\<close>: for every range of \<open>self\<close>, every range of \<open>other\<close>; the inner generator
  is created anew for each outer range.
\<close>

fun intersect_inner ::
  "store \<Rightarrow> AddressSet \<Rightarrow> AddressRange \<Rightarrow> AddressRange list \<Rightarrow> (error + store \<times> AddressSet) option" where
  "intersect_inner s R r1 [] = Some (Inr (s, R))"
| "intersect_inner s R r1 (r2 # rs) =
     (let st = max (get_min_address r1) (get_min_address r2);
          en = min (get_max_address r1) (get_max_address r2)
      in if st \<le> en then
           (case AddressRange_init st en of
              Inl e \<Rightarrow> Some (Inl e)
            | Inr r \<Rightarrow>
                (case add s R r of
                   None \<Rightarrow> None
                 | Some (s', R') \<Rightarrow> intersect_inner s' R' r1 rs))
         else intersect_inner s R r1 rs)"

fun intersect_outer ::
  "store \<Rightarrow> AddressSet \<Rightarrow> AddressSet \<Rightarrow> AddressRange list \<Rightarrow> (error + store \<times> AddressSet) option" where
  "intersect_outer s R other [] = Some (Inr (s, R))"
| "intersect_outer s R other (r1 # rs) =
     (case get_address_ranges (nodes s) other of
        None \<Rightarrow> None
      | Some (Inl e) \<Rightarrow> Some (Inl e)
      | Some (Inr rs2) \<Rightarrow>
          (case intersect_inner s R r1 rs2 of
             None \<Rightarrow> None
           | Some (Inl e) \<Rightarrow> Some (Inl e)
           | Some (Inr (s', R')) \<Rightarrow> intersect_outer s' R' other rs))"

definition intersect :: "store \<Rightarrow> AddressSet \<Rightarrow> AddressSet \<Rightarrow> (error + store \<times> AddressSet) option" where
  "intersect s self other =
     (case AddressSet_init s None of
        None \<Rightarrow> None
      | Some (s0, R) \<Rightarrow>
          (case get_address_ranges (nodes s0) self of
             None \<Rightarrow> None
           | Some (Inl e) \<Rightarrow> Some (Inl e)
           | Some (Inr rs1) \<Rightarrow> intersect_outer s0 R other rs1))"

text \<open>\<open>union\<close> (named \<open>union_sets\<close> here): every range of \<open>self\<close>, then every range of \<open>other\<close>, added to a new set.\<close>

fun add_all :: "store \<Rightarrow> AddressSet \<Rightarrow> AddressRange list \<Rightarrow> (store \<times> AddressSet) option" where
  "add_all s R [] = Some (s, R)"
| "add_all s R (r # rs) =
     (case add s R r of None \<Rightarrow> None | Some (s', R') \<Rightarrow> add_all s' R' rs)"

definition union_sets :: "store \<Rightarrow> AddressSet \<Rightarrow> AddressSet \<Rightarrow> (error + store \<times> AddressSet) option" where
  "union_sets s self other =
     (case AddressSet_init s None of
        None \<Rightarrow> None
      | Some (s0, R) \<Rightarrow>
          (case get_address_ranges (nodes s0) self of
             None \<Rightarrow> None
           | Some (Inl e) \<Rightarrow> Some (Inl e)
           | Some (Inr rs1) \<Rightarrow>
               (case add_all s0 R rs1 of
                  None \<Rightarrow> None
                | Some (s1, R1) \<Rightarrow>
                    (case get_address_ranges (nodes s1) other of
                       None \<Rightarrow> None
                     | Some (Inl e) \<Rightarrow> Some (Inl e)
                     | Some (Inr rs2) \<Rightarrow> map_option Inr (add_all s1 R1 rs2)))))"

section \<open>The static helpers of address\_set\_view.py\<close>

text \<open>
  Modelled from the spec: \<open>Address.compare_to\<close> and the two-address form of
  \<open>AddressSet.add\<close> are declared in address\_set\_view.py with the body \<open>pass\<close>; their
  code is not in the repository. The spec gives an address a total order and lets
  \<open>add\<close> take a range, so \<open>compare_to\<close> is the sign of the difference of the offsets and
  \<open>add(start, end)\<close> is \<open>add(AddressRange(start, end))\<close>.
\<close>

definition compare_to :: "Address \<Rightarrow> Address \<Rightarrow> int" where
  "compare_to a b = (if a < b then - 1 else if a = b then 0 else 1)"

definition add_bounds ::
  "store \<Rightarrow> AddressSet \<Rightarrow> Address \<Rightarrow> Address \<Rightarrow> (error + store \<times> AddressSet) option" where
  "add_bounds s A st en =
     (case AddressRange_init st en of
        Inl e \<Rightarrow> Some (Inl e)
      | Inr r \<Rightarrow> map_option Inr (add s A r))"

fun trim_start_loop ::
  "store \<Rightarrow> AddressSet \<Rightarrow> Address \<Rightarrow> AddressRange list \<Rightarrow> (error + store \<times> AddressSet) option" where
  "trim_start_loop s R addr [] = Some (Inr (s, R))"
| "trim_start_loop s R addr (rng # rs) =
     (let min_addr = get_min_address rng;
          max_addr = get_max_address rng
      in if compare_to min_addr addr > 0 then
           (case add s R rng of
              None \<Rightarrow> None
            | Some (s', R') \<Rightarrow> trim_start_loop s' R' addr rs)
         else if compare_to max_addr addr > 0 then
           (case add_bounds s R (next_address addr) max_addr of
              None \<Rightarrow> None
            | Some (Inl e) \<Rightarrow> Some (Inl e)
            | Some (Inr (s', R')) \<Rightarrow> trim_start_loop s' R' addr rs)
         else trim_start_loop s R addr rs)"

definition trim_start :: "store \<Rightarrow> AddressSet \<Rightarrow> Address \<Rightarrow> (error + store \<times> AddressSet) option" where
  "trim_start s set_view addr =
     (case AddressSet_init s None of
        None \<Rightarrow> None
      | Some (s0, R) \<Rightarrow>
          (case get_address_ranges (nodes s0) set_view of
             None \<Rightarrow> None
           | Some (Inl e) \<Rightarrow> Some (Inl e)
           | Some (Inr rs) \<Rightarrow> trim_start_loop s0 R addr rs))"

section \<open>The tree that a heap holds\<close>

text \<open>
  The definitions of this section are not code of the repository: they describe what the
  heap holds, for the proofs. A \<open>shape\<close> is the binary tree of node references that the
  links of the heap spell out; \<open>is_tree h nl p n T\<close> says that, in heap \<open>h\<close> with sentinel
  \<open>nl\<close>, the reference \<open>n\<close> is the root of a subtree of shape \<open>T\<close> whose parent link is \<open>p\<close>.
\<close>

datatype shape = Tip | Bin shape ref shape

fun refs :: "shape \<Rightarrow> ref set" where
  "refs Tip = {}"
| "refs (Bin l a r) = refs l \<union> {a} \<union> refs r"

fun flat :: "shape \<Rightarrow> ref list" where
  "flat Tip = []"
| "flat (Bin l a r) = flat l @ [a] @ flat r"

fun is_tree :: "heap \<Rightarrow> ref \<Rightarrow> ref \<Rightarrow> ref \<Rightarrow> shape \<Rightarrow> bool" where
  "is_tree h nl p n Tip = (n = nl)"
| "is_tree h nl p n (Bin l a r) =
     (n = a \<and> a \<noteq> nl \<and> parent (h a) = p \<and>
      is_tree h nl a (left (h a)) l \<and> is_tree h nl a (right (h a)) r)"

fun last_node :: "heap \<Rightarrow> Address \<Rightarrow> ref \<Rightarrow> shape \<Rightarrow> ref" where
  "last_node h k y Tip = y"
| "last_node h k y (Bin l a r) =
     (if k < key (h a) then last_node h k a l else last_node h k a r)"

fun sins :: "heap \<Rightarrow> Address \<Rightarrow> ref \<Rightarrow> shape \<Rightarrow> shape" where
  "sins h k z Tip = Bin Tip z Tip"
| "sins h k z (Bin l a r) =
     (if k < key (h a) then Bin (sins h k z l) a r else Bin l a (sins h k z r))"

definition rotated_left :: "heap \<Rightarrow> ref \<Rightarrow> ref \<Rightarrow> heap" where
  "rotated_left h nl x =
     (let y = right (h x); yl = left (h y); xp = parent (h x) in
      (\<lambda>a. if a = x then (h x)\<lparr>right := yl, parent := y\<rparr>
           else if a = y then (h y)\<lparr>left := x, parent := xp\<rparr>
           else if a = yl \<and> yl \<noteq> nl then (h yl)\<lparr>parent := x\<rparr>
           else if a = xp \<and> xp \<noteq> nl then
             (if left (h xp) = x then (h xp)\<lparr>left := y\<rparr> else (h xp)\<lparr>right := y\<rparr>)
           else h a))"

definition rotated_right :: "heap \<Rightarrow> ref \<Rightarrow> ref \<Rightarrow> heap" where
  "rotated_right h nl y =
     (let x = left (h y); xr = right (h x); yp = parent (h y) in
      (\<lambda>a. if a = y then (h y)\<lparr>left := xr, parent := x\<rparr>
           else if a = x then (h x)\<lparr>right := y, parent := yp\<rparr>
           else if a = xr \<and> xr \<noteq> nl then (h xr)\<lparr>parent := y\<rparr>
           else if a = yp \<and> yp \<noteq> nl then
             (if right (h yp) = y then (h yp)\<lparr>right := x\<rparr> else (h yp)\<lparr>left := x\<rparr>)
           else h a))"

fun rotL :: "ref \<Rightarrow> shape \<Rightarrow> shape" where
  "rotL x Tip = Tip"
| "rotL x (Bin l a r) =
     (if a = x then (case r of Tip \<Rightarrow> Bin l a r | Bin rl y rr \<Rightarrow> Bin (Bin l a rl) y rr)
      else Bin (rotL x l) a (rotL x r))"

fun rotR :: "ref \<Rightarrow> shape \<Rightarrow> shape" where
  "rotR y Tip = Tip"
| "rotR y (Bin l a r) =
     (if a = y then (case l of Tip \<Rightarrow> Bin l a r | Bin ll x lr \<Rightarrow> Bin ll x (Bin lr a r))
      else Bin (rotR y l) a (rotR y r))"

fun depth :: "ref \<Rightarrow> shape \<Rightarrow> nat" where
  "depth x Tip = 0"
| "depth x (Bin l a r) =
     (if x = a then 0 else if x \<in> refs l then Suc (depth x l) else Suc (depth x r))"

definition fix_inv :: "heap \<Rightarrow> ref list \<Rightarrow> shape \<Rightarrow> heap \<Rightarrow> RedBlackTree \<Rightarrow> ref \<Rightarrow> bool" where
  "fix_inv h0 F T h t z =
     (is_tree h (nil t) (nil t) (root t) T \<and> distinct (flat T) \<and> flat T = F \<and> z \<in> refs T \<and>
      (z \<noteq> root t \<longrightarrow> color (h (root t)) = BLACK) \<and> color (h (nil t)) = BLACK \<and>
      (\<forall>a. a \<notin> set F \<longrightarrow> h a = h0 a) \<and>
      (\<forall>a. key (h a) = key (h0 a) \<and> val (h a) = val (h0 a)))"

definition linked :: "heap \<Rightarrow> ref \<Rightarrow> ref \<Rightarrow> ref \<Rightarrow> heap" where
  "linked h nl z y =
     (let h1 = set_parent h z y;
          h2 = (if y = nl then h1
                else if key (h1 z) < key (h1 y) then set_left h1 y z
                else set_right h1 y z);
          h3 = set_left h2 z nl;
          h4 = set_right h3 z nl
      in set_color h4 z RED)"

definition entry :: "heap \<Rightarrow> ref \<Rightarrow> Address \<times> Address" where
  "entry h a = (key (h a), val (h a))"

fun ins_entry :: "Address \<times> Address \<Rightarrow> (Address \<times> Address) list \<Rightarrow> (Address \<times> Address) list" where
  "ins_entry e [] = [e]"
| "ins_entry e (x # xs) = (if fst e < fst x then e # x # xs else x # ins_entry e xs)"

definition rb_inv :: "store \<Rightarrow> RedBlackTree \<Rightarrow> shape \<Rightarrow> bool" where
  "rb_inv s t T =
     (is_tree (nodes s) (nil t) (nil t) (root t) T \<and> distinct (flat T) \<and>
      sorted (map fst (map (entry (nodes s)) (flat T))) \<and>
      (\<forall>a\<in>refs T. a < fresh s) \<and> nil t < fresh s \<and>
      color (nodes s (nil t)) = BLACK \<and> color (nodes s (root t)) = BLACK)"

definition to_range :: "Address \<times> Address \<Rightarrow> AddressRange" where
  "to_range e = \<lparr>start = fst e, end_address = snd e\<rparr>"

definition entries :: "store \<Rightarrow> shape \<Rightarrow> (Address \<times> Address) list" where
  "entries s T = map (entry (nodes s)) (flat T)"

definition set_inv :: "store \<Rightarrow> AddressSet \<Rightarrow> shape \<Rightarrow> bool" where
  "set_inv s A T =
     (rb_inv s (tree A) T \<and> (\<forall>e\<in>set (entries s T). fst e \<le> snd e) \<and>
      address_count A = sum_list (map (\<lambda>e. snd e - fst e + 1) (entries s T)))"

definition valid_range :: "AddressRange \<Rightarrow> bool" where
  "valid_range r = (start r \<le> end_address r)"

definition build :: "store \<Rightarrow> AddressRange option \<Rightarrow> AddressRange list \<Rightarrow> (store \<times> AddressSet) option" where
  "build s init_range rs =
     (case AddressSet_init s init_range of
        None \<Rightarrow> None
      | Some (s1, A) \<Rightarrow> add_all s1 A rs)"

fun ins_range :: "AddressRange \<Rightarrow> AddressRange list \<Rightarrow> AddressRange list" where
  "ins_range r [] = [r]"
| "ins_range r (x # xs) = (if start r < start x then r # x # xs else x # ins_range r xs)"

definition of_range :: "AddressRange \<Rightarrow> Address \<times> Address" where
  "of_range r = (start r, end_address r)"

definition initial_ranges :: "AddressRange option \<Rightarrow> AddressRange list" where
  "initial_ranges init_range = (case init_range of None \<Rightarrow> [] | Some r \<Rightarrow> [r])"

definition stored_order :: "AddressRange list \<Rightarrow> AddressRange list" where
  "stored_order rs = foldl (\<lambda>xs r. ins_range r xs) [] rs"

definition example_store :: store where
  "example_store =
     \<lparr>nodes = (\<lambda>_. \<lparr>key = 0, val = 0, color = BLACK, left = 0, right = 0, parent = 0\<rparr>),
      fresh = 0\<rparr>"

definition range_of :: "Address \<Rightarrow> Address \<Rightarrow> AddressRange" where
  "range_of a b = \<lparr>start = a, end_address = b\<rparr>"

section \<open>Insertion keeps the tree and its in-order walk\<close>

lemma set_flat: "set (flat T) = refs T"
  by (induction T) auto

lemma is_tree_nil_notin: "is_tree h nl p n T \<Longrightarrow> nl \<notin> refs T"
  by (induction T arbitrary: p n) auto

lemma is_tree_root_in: "is_tree h nl p n T \<Longrightarrow> n \<noteq> nl \<Longrightarrow> n \<in> refs T"
  by (cases T) auto

lemma is_tree_frame:
  "is_tree h nl p n T \<Longrightarrow>
   \<forall>a\<in>refs T. left (h' a) = left (h a) \<and> right (h' a) = right (h a) \<and> parent (h' a) = parent (h a) \<Longrightarrow>
   is_tree h' nl p n T"
  by (induction T arbitrary: p n) auto

lemma inorder_from_tree:
  "is_tree h (nil t) p n T \<Longrightarrow> inorder_from h t n = Some (flat T)"
proof (induction T arbitrary: p n)
  case Tip
  then show ?case by (simp add: inorder_from.simps)
next
  case (Bin l a r)
  from Bin.prems have n: "n = a" "a \<noteq> nil t"
    and l: "is_tree h (nil t) a (left (h a)) l" and r: "is_tree h (nil t) a (right (h a)) r"
    by auto
  show ?case
    using Bin.IH(1)[OF l] Bin.IH(2)[OF r] n
    by (subst inorder_from.simps) simp
qed

lemma insert_descend_tree:
  "is_tree h (nil t) p n T \<Longrightarrow> insert_descend h t k p n = Some (last_node h k p T)"
proof (induction T arbitrary: p n)
  case Tip
  then show ?case by (simp add: insert_descend.simps)
next
  case (Bin l a r)
  from Bin.prems have n: "n = a" "a \<noteq> nil t"
    and l: "is_tree h (nil t) a (left (h a)) l" and r: "is_tree h (nil t) a (right (h a)) r"
    by auto
  show ?case
    using Bin.IH(1)[OF l] Bin.IH(2)[OF r] n
    by (subst insert_descend.simps) simp
qed

lemma last_node_in: "last_node h k y T \<in> insert y (refs T)"
  by (induction T arbitrary: y) auto

lemma last_node_in_refs: "T \<noteq> Tip \<Longrightarrow> last_node h k y T \<in> refs T"
  using last_node_in[of h k _ _] by (cases T) (auto split: if_splits)

lemma refs_sins: "refs (sins h k z T) = insert z (refs T)"
  by (induction T) auto

lemma left_rotate_explicit:
  assumes "right (h x) \<noteq> x" "left (h (right (h x))) \<noteq> x" "left (h (right (h x))) \<noteq> right (h x)"
    "parent (h x) \<noteq> x" "parent (h x) \<noteq> right (h x)"
    "left (h (right (h x))) \<noteq> nil t \<longrightarrow> parent (h x) \<noteq> left (h (right (h x)))"
  shows "left_rotate h t x =
           (rotated_left h (nil t) x, if parent (h x) = nil t then t\<lparr>root := right (h x)\<rparr> else t)"
  using assms
  unfolding left_rotate_def rotated_left_def Let_def set_left_def set_right_def set_parent_def
  by (auto simp: fun_eq_iff)

lemma right_rotate_explicit:
  assumes "left (h y) \<noteq> y" "right (h (left (h y))) \<noteq> y" "right (h (left (h y))) \<noteq> left (h y)"
    "parent (h y) \<noteq> y" "parent (h y) \<noteq> left (h y)"
    "right (h (left (h y))) \<noteq> nil t \<longrightarrow> parent (h y) \<noteq> right (h (left (h y)))"
  shows "right_rotate h t y =
           (rotated_right h (nil t) y, if parent (h y) = nil t then t\<lparr>root := left (h y)\<rparr> else t)"
  using assms
  unfolding right_rotate_def rotated_right_def Let_def set_left_def set_right_def set_parent_def
  by (auto simp: fun_eq_iff)

lemma flat_rotL: "flat (rotL x T) = flat T"
  by (induction T) (auto split: shape.splits)

lemma flat_rotR: "flat (rotR x T) = flat T"
  by (induction T) (auto split: shape.splits)

lemma refs_rotL: "refs (rotL x T) = refs T"
  using flat_rotL[of x T] set_flat by metis

lemma refs_rotR: "refs (rotR x T) = refs T"
  using flat_rotR[of x T] set_flat by metis

lemma rot_notin: "x \<notin> refs T \<Longrightarrow> rotL x T = T \<and> rotR x T = T"
  by (induction T) auto

lemma is_tree_children_in:
  "is_tree h nl p n T \<Longrightarrow> x \<in> refs T \<Longrightarrow>
   left (h x) \<in> insert nl (refs T) \<and> right (h x) \<in> insert nl (refs T)"
proof (induction T arbitrary: p n)
  case Tip
  then show ?case by simp
next
  case (Bin l a r)
  from Bin.prems have l: "is_tree h nl a (left (h a)) l" and r: "is_tree h nl a (right (h a)) r"
    by auto
  consider "x = a" | "x \<in> refs l" | "x \<in> refs r" using Bin.prems(2) by auto
  then show ?case
  proof cases
    case 1
    have "left (h a) \<in> insert nl (refs l)" using l is_tree_root_in by blast
    moreover have "right (h a) \<in> insert nl (refs r)" using r is_tree_root_in by blast
    ultimately show ?thesis using 1 by auto
  next
    case 2
    then show ?thesis using Bin.IH(1)[OF l] by auto
  next
    case 3
    then show ?thesis using Bin.IH(2)[OF r] by auto
  qed
qed

lemma is_tree_parent_in:
  "is_tree h nl p n T \<Longrightarrow> x \<in> refs T \<Longrightarrow> x \<noteq> n \<Longrightarrow>
   parent (h x) \<in> refs T \<and> (left (h (parent (h x))) = x \<or> right (h (parent (h x))) = x)"
proof (induction T arbitrary: p n)
  case Tip
  then show ?case by simp
next
  case (Bin l a r)
  from Bin.prems have n: "n = a"
    and l: "is_tree h nl a (left (h a)) l" and r: "is_tree h nl a (right (h a)) r"
    by auto
  consider "x \<in> refs l" | "x \<in> refs r" using Bin.prems(2,3) n by auto
  then show ?case
  proof cases
    case 1
    show ?thesis
    proof (cases "x = left (h a)")
      case True
      then have "parent (h x) = a" using l 1 by (cases l) auto
      then show ?thesis using True by simp
    next
      case False
      then show ?thesis using Bin.IH(1)[OF l 1] by auto
    qed
  next
    case 2
    show ?thesis
    proof (cases "x = right (h a)")
      case True
      then have "parent (h x) = a" using r 2 by (cases r) auto
      then show ?thesis using True by simp
    next
      case False
      then show ?thesis using Bin.IH(2)[OF r 2] by auto
    qed
  qed
qed

lemma is_tree_reparent:
  assumes "is_tree h nl p n T" "distinct (flat T)"
    "\<forall>a\<in>refs T. left (h' a) = left (h a) \<and> right (h' a) = right (h a) \<and>
        (a \<noteq> n \<longrightarrow> parent (h' a) = parent (h a))"
    "n \<noteq> nl \<longrightarrow> parent (h' n) = p'"
  shows "is_tree h' nl p' n T"
proof (cases T)
  case Tip
  then show ?thesis using assms by simp
next
  case (Bin l a r)
  from assms(1) Bin have n: "n = a" "a \<noteq> nl"
    and l: "is_tree h nl a (left (h a)) l" and r: "is_tree h nl a (right (h a)) r"
    by auto
  from assms(2) Bin have d: "a \<notin> refs l" "a \<notin> refs r" by (auto simp: set_flat)
  have "is_tree h' nl a (left (h a)) l"
    by (rule is_tree_frame[OF l]) (use assms(3) Bin n d in auto)
  moreover have "is_tree h' nl a (right (h a)) r"
    by (rule is_tree_frame[OF r]) (use assms(3) Bin n d in auto)
  ultimately show ?thesis using assms(3,4) Bin n by auto
qed

lemma rotated_left_other:
  "a \<noteq> x \<Longrightarrow> a \<noteq> right (h x) \<Longrightarrow> a \<noteq> left (h (right (h x))) \<or> left (h (right (h x))) = nl \<Longrightarrow>
   a \<noteq> parent (h x) \<or> parent (h x) = nl \<Longrightarrow> rotated_left h nl x a = h a"
  by (auto simp: rotated_left_def Let_def)

lemma rotL_tree:
  assumes "is_tree h nl p n T" "distinct (flat T)" "p \<notin> refs T" "x \<in> refs T" "right (h x) \<noteq> nl"
  shows "is_tree (rotated_left h nl x) nl p (if n = x then right (h x) else n) (rotL x T)"
  using assms
proof (induction T arbitrary: p n)
  case Tip
  then show ?case by simp
next
  case (Bin l a r)
  let ?h = "rotated_left h nl x"
  let ?y = "right (h x)"
  let ?yl = "left (h ?y)"
  let ?xp = "parent (h x)"
  from Bin.prems have n: "n = a" "a \<noteq> nl" and pa: "parent (h a) = p"
    and l: "is_tree h nl a (left (h a)) l" and r: "is_tree h nl a (right (h a)) r"
    by auto
  from Bin.prems(2) have d: "a \<notin> refs l" "a \<notin> refs r" "refs l \<inter> refs r = {}"
    "distinct (flat l)" "distinct (flat r)"
    by (auto simp: set_flat)
  from Bin.prems(3) have pn: "p \<noteq> a" "p \<notin> refs l" "p \<notin> refs r" by auto
  have nl_l: "nl \<notin> refs l" and nl_r: "nl \<notin> refs r"
    using l r is_tree_nil_notin by blast+
  have la: "left (h a) \<in> insert nl (refs l)" using l is_tree_root_in by blast
  have ra: "right (h a) \<in> insert nl (refs r)" using r is_tree_root_in by blast
  consider (root) "x = a" | (inl) "x \<in> refs l" | (inr) "x \<in> refs r"
    using Bin.prems(4) by auto
  then show ?case
  proof cases
    case root
    with Bin.prems(5) r obtain rl rr where r_eq: "r = Bin rl ?y rr"
      by (cases r) auto
    from r r_eq root have y: "?y \<noteq> nl" "parent (h ?y) = a"
      and rl: "is_tree h nl ?y ?yl rl" and rr: "is_tree h nl ?y (right (h ?y)) rr"
      by auto
    from d r_eq root have dy: "?y \<noteq> x" "?y \<notin> refs rl" "?y \<notin> refs rr" "x \<notin> refs rl" "x \<notin> refs rr"
      "refs rl \<inter> refs rr = {}" "distinct (flat rl)" "refs l \<inter> refs rl = {}" "refs l \<inter> refs rr = {}"
      "?y \<notin> refs l"
      by (auto simp: set_flat)
    have yl_in: "?yl \<in> insert nl (refs rl)" using rl is_tree_root_in by blast
    have xp: "?xp = p" using pa root by simp
    have p_r: "p \<noteq> ?y" "p \<notin> refs rl" "p \<notin> refs rr" using pn r_eq by auto
    have hx: "?h x = (h x)\<lparr>right := ?yl, parent := ?y\<rparr>"
      by (simp add: rotated_left_def Let_def)
    have hy: "?h ?y = (h ?y)\<lparr>left := x, parent := ?xp\<rparr>"
      using dy(1) by (simp add: rotated_left_def Let_def)
    have t_l: "is_tree ?h nl x (left (h x)) l"
    proof (rule is_tree_frame)
      show "is_tree h nl x (left (h x)) l" using l root by simp
      show "\<forall>b\<in>refs l. left (?h b) = left (h b) \<and> right (?h b) = right (h b) \<and> parent (?h b) = parent (h b)"
      proof
        fix b assume b: "b \<in> refs l"
        have "?h b = h b"
          by (rule rotated_left_other) (use b d root dy yl_in pn xp nl_l in auto)
        then show "left (?h b) = left (h b) \<and> right (?h b) = right (h b) \<and> parent (?h b) = parent (h b)"
          by simp
      qed
    qed
    have t_rr: "is_tree ?h nl ?y (right (h ?y)) rr"
    proof (rule is_tree_frame[OF rr])
      show "\<forall>b\<in>refs rr. left (?h b) = left (h b) \<and> right (?h b) = right (h b) \<and> parent (?h b) = parent (h b)"
      proof
        fix b assume b: "b \<in> refs rr"
        have "?h b = h b"
          by (rule rotated_left_other) (use b dy yl_in p_r xp in auto)
        then show "left (?h b) = left (h b) \<and> right (?h b) = right (h b) \<and> parent (?h b) = parent (h b)"
          by simp
      qed
    qed
    have t_rl: "is_tree ?h nl x ?yl rl"
    proof (rule is_tree_reparent[OF rl dy(7)])
      show "\<forall>b\<in>refs rl. left (?h b) = left (h b) \<and> right (?h b) = right (h b) \<and>
               (b \<noteq> ?yl \<longrightarrow> parent (?h b) = parent (h b))"
      proof
        fix b assume b: "b \<in> refs rl"
        have bx: "b \<noteq> x" "b \<noteq> ?y" "b \<noteq> ?xp" using b dy p_r xp by auto
        show "left (?h b) = left (h b) \<and> right (?h b) = right (h b) \<and>
               (b \<noteq> ?yl \<longrightarrow> parent (?h b) = parent (h b))"
          using bx by (simp add: rotated_left_def Let_def)
      qed
      show "?yl \<noteq> nl \<longrightarrow> parent (?h ?yl) = x"
        using yl_in dy by (auto simp: rotated_left_def Let_def)
    qed
    show ?thesis
      using root r_eq n y hx hy xp t_l t_rr t_rl dy(1) by simp
  next
    case inl
    have xa: "x \<noteq> a" using inl d by auto
    have xr: "x \<notin> refs r" using inl d by auto
    have ch: "?y \<in> insert nl (refs l)" "?yl \<in> insert nl (refs l)"
      using is_tree_children_in[OF l inl] is_tree_children_in[OF l, of ?y] Bin.prems(5) by auto
    have yin: "?y \<in> refs l" using ch Bin.prems(5) by auto
    have IH: "is_tree ?h nl a (if left (h a) = x then ?y else left (h a)) (rotL x l)"
      by (rule Bin.IH(1)[OF l d(4) d(1) inl Bin.prems(5)])
    have xp_cases: "(left (h a) = x \<and> ?xp = a) \<or> (left (h a) \<noteq> x \<and> ?xp \<in> refs l)"
    proof (cases "left (h a) = x")
      case True
      then show ?thesis using l inl by (cases l) auto
    next
      case False
      then show ?thesis using is_tree_parent_in[OF l inl] by auto
    qed
    have t_r: "is_tree ?h nl a (right (h a)) r"
    proof (rule is_tree_frame[OF r])
      show "\<forall>b\<in>refs r. left (?h b) = left (h b) \<and> right (?h b) = right (h b) \<and> parent (?h b) = parent (h b)"
      proof
        fix b assume b: "b \<in> refs r"
        have "?h b = h b"
          by (rule rotated_left_other) (use b d xr ch yin nl_l nl_r Bin.prems(5) xp_cases in auto)
        then show "left (?h b) = left (h b) \<and> right (?h b) = right (h b) \<and> parent (?h b) = parent (h b)"
          by simp
      qed
    qed
    have ha: "parent (?h a) = p \<and> right (?h a) = right (h a) \<and>
              left (?h a) = (if left (h a) = x then ?y else left (h a))"
      using xp_cases xa yin ch d n pa by (auto simp: rotated_left_def Let_def)
    show ?thesis
      using IH t_r ha n xa rot_notin[OF xr] by simp
  next
    case inr
    have xa: "x \<noteq> a" using inr d by auto
    have xl: "x \<notin> refs l" using inr d by auto
    have ch: "?y \<in> insert nl (refs r)" "?yl \<in> insert nl (refs r)"
      using is_tree_children_in[OF r inr] is_tree_children_in[OF r, of ?y] Bin.prems(5) by auto
    have yin: "?y \<in> refs r" using ch Bin.prems(5) by auto
    have IH: "is_tree ?h nl a (if right (h a) = x then ?y else right (h a)) (rotL x r)"
      by (rule Bin.IH(2)[OF r d(5) d(2) inr Bin.prems(5)])
    have lx: "left (h a) \<noteq> x" using la xl inr nl_r by auto
    have xp_cases: "(right (h a) = x \<and> ?xp = a) \<or> (right (h a) \<noteq> x \<and> ?xp \<in> refs r)"
    proof (cases "right (h a) = x")
      case True
      then show ?thesis using r inr by (cases r) auto
    next
      case False
      then show ?thesis using is_tree_parent_in[OF r inr] by auto
    qed
    have t_l: "is_tree ?h nl a (left (h a)) l"
    proof (rule is_tree_frame[OF l])
      show "\<forall>b\<in>refs l. left (?h b) = left (h b) \<and> right (?h b) = right (h b) \<and> parent (?h b) = parent (h b)"
      proof
        fix b assume b: "b \<in> refs l"
        have "?h b = h b"
          by (rule rotated_left_other) (use b d xl ch yin nl_l nl_r Bin.prems(5) xp_cases in auto)
        then show "left (?h b) = left (h b) \<and> right (?h b) = right (h b) \<and> parent (?h b) = parent (h b)"
          by simp
      qed
    qed
    have ha: "parent (?h a) = p \<and> left (?h a) = left (h a) \<and>
              right (?h a) = (if right (h a) = x then ?y else right (h a))"
      using xp_cases xa yin ch d n pa lx by (auto simp: rotated_left_def Let_def)
    show ?thesis
      using IH t_l ha n xa rot_notin[OF xl] by simp
  qed
qed

lemma rotated_right_other:
  "a \<noteq> x \<Longrightarrow> a \<noteq> left (h x) \<Longrightarrow> a \<noteq> right (h (left (h x))) \<or> right (h (left (h x))) = nl \<Longrightarrow>
   a \<noteq> parent (h x) \<or> parent (h x) = nl \<Longrightarrow> rotated_right h nl x a = h a"
  by (auto simp: rotated_right_def Let_def)

lemma rotR_tree:
  assumes "is_tree h nl p n T" "distinct (flat T)" "p \<notin> refs T" "x \<in> refs T" "left (h x) \<noteq> nl"
  shows "is_tree (rotated_right h nl x) nl p (if n = x then left (h x) else n) (rotR x T)"
  using assms
proof (induction T arbitrary: p n)
  case Tip
  then show ?case by simp
next
  case (Bin r a l)
  let ?h = "rotated_right h nl x"
  let ?y = "left (h x)"
  let ?yl = "right (h ?y)"
  let ?xp = "parent (h x)"
  from Bin.prems have n: "n = a" "a \<noteq> nl" and pa: "parent (h a) = p"
    and l: "is_tree h nl a (right (h a)) l" and r: "is_tree h nl a (left (h a)) r"
    by auto
  from Bin.prems(2) have d: "a \<notin> refs l" "a \<notin> refs r" "refs l \<inter> refs r = {}"
    "distinct (flat l)" "distinct (flat r)"
    by (auto simp: set_flat)
  from Bin.prems(3) have pn: "p \<noteq> a" "p \<notin> refs l" "p \<notin> refs r" by auto
  have nl_l: "nl \<notin> refs l" and nl_r: "nl \<notin> refs r"
    using l r is_tree_nil_notin by blast+
  have la: "right (h a) \<in> insert nl (refs l)" using l is_tree_root_in by blast
  have ra: "left (h a) \<in> insert nl (refs r)" using r is_tree_root_in by blast
  consider (root) "x = a" | (inl) "x \<in> refs l" | (inr) "x \<in> refs r"
    using Bin.prems(4) by auto
  then show ?case
  proof cases
    case root
    with Bin.prems(5) r obtain rl rr where r_eq: "r = Bin rr ?y rl"
      by (cases r) auto
    from r r_eq root have y: "?y \<noteq> nl" "parent (h ?y) = a"
      and rl: "is_tree h nl ?y ?yl rl" and rr: "is_tree h nl ?y (left (h ?y)) rr"
      by auto
    from d r_eq root have dy: "?y \<noteq> x" "?y \<notin> refs rl" "?y \<notin> refs rr" "x \<notin> refs rl" "x \<notin> refs rr"
      "refs rl \<inter> refs rr = {}" "distinct (flat rl)" "refs l \<inter> refs rl = {}" "refs l \<inter> refs rr = {}"
      "?y \<notin> refs l"
      by (auto simp: set_flat)
    have yl_in: "?yl \<in> insert nl (refs rl)" using rl is_tree_root_in by blast
    have xp: "?xp = p" using pa root by simp
    have p_r: "p \<noteq> ?y" "p \<notin> refs rl" "p \<notin> refs rr" using pn r_eq by auto
    have hx: "?h x = (h x)\<lparr>left := ?yl, parent := ?y\<rparr>"
      by (simp add: rotated_right_def Let_def)
    have hy: "?h ?y = (h ?y)\<lparr>right := x, parent := ?xp\<rparr>"
      using dy(1) by (simp add: rotated_right_def Let_def)
    have t_l: "is_tree ?h nl x (right (h x)) l"
    proof (rule is_tree_frame)
      show "is_tree h nl x (right (h x)) l" using l root by simp
      show "\<forall>b\<in>refs l. left (?h b) = left (h b) \<and> right (?h b) = right (h b) \<and> parent (?h b) = parent (h b)"
      proof
        fix b assume b: "b \<in> refs l"
        have "?h b = h b"
          by (rule rotated_right_other) (use b d root dy yl_in pn xp nl_l in auto)
        then show "left (?h b) = left (h b) \<and> right (?h b) = right (h b) \<and> parent (?h b) = parent (h b)"
          by simp
      qed
    qed
    have t_rr: "is_tree ?h nl ?y (left (h ?y)) rr"
    proof (rule is_tree_frame[OF rr])
      show "\<forall>b\<in>refs rr. left (?h b) = left (h b) \<and> right (?h b) = right (h b) \<and> parent (?h b) = parent (h b)"
      proof
        fix b assume b: "b \<in> refs rr"
        have "?h b = h b"
          by (rule rotated_right_other) (use b dy yl_in p_r xp in auto)
        then show "left (?h b) = left (h b) \<and> right (?h b) = right (h b) \<and> parent (?h b) = parent (h b)"
          by simp
      qed
    qed
    have t_rl: "is_tree ?h nl x ?yl rl"
    proof (rule is_tree_reparent[OF rl dy(7)])
      show "\<forall>b\<in>refs rl. left (?h b) = left (h b) \<and> right (?h b) = right (h b) \<and>
               (b \<noteq> ?yl \<longrightarrow> parent (?h b) = parent (h b))"
      proof
        fix b assume b: "b \<in> refs rl"
        have bx: "b \<noteq> x" "b \<noteq> ?y" "b \<noteq> ?xp" using b dy p_r xp by auto
        show "left (?h b) = left (h b) \<and> right (?h b) = right (h b) \<and>
               (b \<noteq> ?yl \<longrightarrow> parent (?h b) = parent (h b))"
          using bx by (simp add: rotated_right_def Let_def)
      qed
      show "?yl \<noteq> nl \<longrightarrow> parent (?h ?yl) = x"
        using yl_in dy by (auto simp: rotated_right_def Let_def)
    qed
    show ?thesis
      using root r_eq n y hx hy xp t_l t_rr t_rl dy(1) by simp
  next
    case inl
    have xa: "x \<noteq> a" using inl d by auto
    have xr: "x \<notin> refs r" using inl d by auto
    have ch: "?y \<in> insert nl (refs l)" "?yl \<in> insert nl (refs l)"
      using is_tree_children_in[OF l inl] is_tree_children_in[OF l, of ?y] Bin.prems(5) by auto
    have yin: "?y \<in> refs l" using ch Bin.prems(5) by auto
    have IH: "is_tree ?h nl a (if right (h a) = x then ?y else right (h a)) (rotR x l)"
      by (rule Bin.IH(2)[OF l d(4) d(1) inl Bin.prems(5)])
    have xp_cases: "(right (h a) = x \<and> ?xp = a) \<or> (right (h a) \<noteq> x \<and> ?xp \<in> refs l)"
    proof (cases "right (h a) = x")
      case True
      then show ?thesis using l inl by (cases l) auto
    next
      case False
      then show ?thesis using is_tree_parent_in[OF l inl] by auto
    qed
    have t_r: "is_tree ?h nl a (left (h a)) r"
    proof (rule is_tree_frame[OF r])
      show "\<forall>b\<in>refs r. left (?h b) = left (h b) \<and> right (?h b) = right (h b) \<and> parent (?h b) = parent (h b)"
      proof
        fix b assume b: "b \<in> refs r"
        have "?h b = h b"
          by (rule rotated_right_other) (use b d xr ch yin nl_l nl_r Bin.prems(5) xp_cases in auto)
        then show "left (?h b) = left (h b) \<and> right (?h b) = right (h b) \<and> parent (?h b) = parent (h b)"
          by simp
      qed
    qed
    have ha: "parent (?h a) = p \<and> left (?h a) = left (h a) \<and>
              right (?h a) = (if right (h a) = x then ?y else right (h a))"
      using xp_cases xa yin ch d n pa by (auto simp: rotated_right_def Let_def)
    show ?thesis
      using IH t_r ha n xa rot_notin[OF xr] by simp
  next
    case inr
    have xa: "x \<noteq> a" using inr d by auto
    have xl: "x \<notin> refs l" using inr d by auto
    have ch: "?y \<in> insert nl (refs r)" "?yl \<in> insert nl (refs r)"
      using is_tree_children_in[OF r inr] is_tree_children_in[OF r, of ?y] Bin.prems(5) by auto
    have yin: "?y \<in> refs r" using ch Bin.prems(5) by auto
    have IH: "is_tree ?h nl a (if left (h a) = x then ?y else left (h a)) (rotR x r)"
      by (rule Bin.IH(1)[OF r d(5) d(2) inr Bin.prems(5)])
    have lx: "right (h a) \<noteq> x" using la xl inr nl_r by auto
    have xp_cases: "(left (h a) = x \<and> ?xp = a) \<or> (left (h a) \<noteq> x \<and> ?xp \<in> refs r)"
    proof (cases "left (h a) = x")
      case True
      then show ?thesis using r inr by (cases r) auto
    next
      case False
      then show ?thesis using is_tree_parent_in[OF r inr] by auto
    qed
    have t_l: "is_tree ?h nl a (right (h a)) l"
    proof (rule is_tree_frame[OF l])
      show "\<forall>b\<in>refs l. left (?h b) = left (h b) \<and> right (?h b) = right (h b) \<and> parent (?h b) = parent (h b)"
      proof
        fix b assume b: "b \<in> refs l"
        have "?h b = h b"
          by (rule rotated_right_other) (use b d xl ch yin nl_l nl_r Bin.prems(5) xp_cases in auto)
        then show "left (?h b) = left (h b) \<and> right (?h b) = right (h b) \<and> parent (?h b) = parent (h b)"
          by simp
      qed
    qed
    have ha: "parent (?h a) = p \<and> right (?h a) = right (h a) \<and>
              left (?h a) = (if left (h a) = x then ?y else left (h a))"
      using xp_cases xa yin ch d n pa lx by (auto simp: rotated_right_def Let_def)
    show ?thesis
      using IH t_l ha n xa rot_notin[OF xl] by simp
  qed
qed

lemma subtree_at:
  "is_tree h nl p n T \<Longrightarrow> distinct (flat T) \<Longrightarrow> p \<notin> refs T \<Longrightarrow> x \<in> refs T \<Longrightarrow>
   \<exists>l r. is_tree h nl (parent (h x)) x (Bin l x r) \<and> distinct (flat (Bin l x r)) \<and>
         parent (h x) \<notin> refs (Bin l x r) \<and> refs (Bin l x r) \<subseteq> refs T"
proof (induction T arbitrary: p n)
  case Tip
  then show ?case by simp
next
  case (Bin l a r)
  from Bin.prems have l: "is_tree h nl a (left (h a)) l" and r: "is_tree h nl a (right (h a)) r"
    and pa: "parent (h a) = p"
    by auto
  from Bin.prems(2) have d: "a \<notin> refs l" "a \<notin> refs r" "distinct (flat l)" "distinct (flat r)"
    by (auto simp: set_flat)
  consider "x = a" | "x \<in> refs l" | "x \<in> refs r" using Bin.prems(4) by auto
  then show ?case
  proof cases
    case 1
    have "is_tree h nl (parent (h x)) x (Bin l x r)" using Bin.prems(1) 1 by auto
    moreover have "distinct (flat (Bin l x r))" using Bin.prems(2) 1 by simp
    moreover have "parent (h x) \<notin> refs (Bin l x r)" using Bin.prems(3) pa 1 by simp
    ultimately show ?thesis using 1 by blast
  next
    case 2
    from Bin.IH(1)[OF l d(3) d(1) 2] obtain l' r' where
      sub: "is_tree h nl (parent (h x)) x (Bin l' x r')" "distinct (flat (Bin l' x r'))"
        "parent (h x) \<notin> refs (Bin l' x r')" "refs (Bin l' x r') \<subseteq> refs l"
      by blast
    from sub(4) have "refs (Bin l' x r') \<subseteq> refs (Bin l a r)" by auto
    with sub(1,2,3) show ?thesis by blast
  next
    case 3
    from Bin.IH(2)[OF r d(4) d(2) 3] obtain l' r' where
      sub: "is_tree h nl (parent (h x)) x (Bin l' x r')" "distinct (flat (Bin l' x r'))"
        "parent (h x) \<notin> refs (Bin l' x r')" "refs (Bin l' x r') \<subseteq> refs r"
      by blast
    from sub(4) have "refs (Bin l' x r') \<subseteq> refs (Bin l a r)" by auto
    with sub(1,2,3) show ?thesis by blast
  qed
qed

lemma depth_parent:
  "is_tree h nl p n T \<Longrightarrow> distinct (flat T) \<Longrightarrow> x \<in> refs T \<Longrightarrow> x \<noteq> n \<Longrightarrow>
   depth x T = Suc (depth (parent (h x)) T)"
proof (induction T arbitrary: p n)
  case Tip
  then show ?case by simp
next
  case (Bin l a r)
  from Bin.prems have n: "n = a"
    and l: "is_tree h nl a (left (h a)) l" and r: "is_tree h nl a (right (h a)) r"
    by auto
  from Bin.prems(2) have d: "a \<notin> refs l" "a \<notin> refs r" "distinct (flat l)" "distinct (flat r)"
    "refs l \<inter> refs r = {}"
    by (auto simp: set_flat)
  consider "x \<in> refs l" | "x \<in> refs r" using Bin.prems(3,4) n by auto
  then show ?case
  proof cases
    case 1
    show ?thesis
    proof (cases "x = left (h a)")
      case True
      then have "parent (h x) = a" using l 1 by (cases l) auto
      then show ?thesis using 1 d True l by (cases l) auto
    next
      case False
      have pin: "parent (h x) \<in> refs l" using is_tree_parent_in[OF l 1] False by auto
      then have "parent (h x) \<noteq> a" using d by auto
      then show ?thesis using Bin.IH(1)[OF l d(3) 1] False 1 pin d by auto
    qed
  next
    case 2
    then have xl: "x \<notin> refs l" using d by auto
    show ?thesis
    proof (cases "x = right (h a)")
      case True
      then have "parent (h x) = a" using r 2 by (cases r) auto
      then show ?thesis using 2 d True r xl by (cases r) auto
    next
      case False
      have pin: "parent (h x) \<in> refs r" using is_tree_parent_in[OF r 2] False by auto
      then have "parent (h x) \<noteq> a" "parent (h x) \<notin> refs l" using d by auto
      then show ?thesis using Bin.IH(2)[OF r d(4) 2] False 2 pin d xl by auto
    qed
  qed
qed

lemma is_tree_root_parent:
  "is_tree h nl nl n T \<Longrightarrow> x \<in> refs T \<Longrightarrow> (parent (h x) = nl) = (x = n)"
proof
  assume a: "is_tree h nl nl n T" "x \<in> refs T" "parent (h x) = nl"
  show "x = n"
  proof (rule ccontr)
    assume "x \<noteq> n"
    from is_tree_parent_in[OF a(1,2) this] is_tree_nil_notin[OF a(1)] a(3) show False by auto
  qed
next
  assume "is_tree h nl nl n T" "x \<in> refs T" "x = n"
  then show "parent (h x) = nl" by (cases T) auto
qed

lemma left_rotate_tree:
  assumes "is_tree h (nil t) (nil t) (root t) T" "distinct (flat T)" "x \<in> refs T"
    "right (h x) \<noteq> nil t"
  shows "left_rotate h t x =
           (rotated_left h (nil t) x, if parent (h x) = nil t then t\<lparr>root := right (h x)\<rparr> else t)"
    and "is_tree (rotated_left h (nil t) x) (nil t) (nil t)
           (if parent (h x) = nil t then right (h x) else root t) (rotL x T)"
proof -
  have nlT: "nil t \<notin> refs T" using assms(1) is_tree_nil_notin by blast
  from subtree_at[OF assms(1,2) nlT assms(3)] obtain l r where
    loc: "is_tree h (nil t) (parent (h x)) x (Bin l x r)" "distinct (flat (Bin l x r))"
      "parent (h x) \<notin> refs (Bin l x r)"
    by blast
  from loc(1) assms(4) obtain rl rr where r_eq: "r = Bin rl (right (h x)) rr"
    by (cases r) auto
  from loc(1) r_eq have rl: "is_tree h (nil t) (right (h x)) (left (h (right (h x)))) rl"
    and xn: "x \<noteq> nil t"
    by auto
  have yl: "left (h (right (h x))) \<in> insert (nil t) (refs rl)"
    using rl is_tree_root_in by blast
  have nrl: "nil t \<notin> refs rl" using rl is_tree_nil_notin by blast
  show "left_rotate h t x =
           (rotated_left h (nil t) x, if parent (h x) = nil t then t\<lparr>root := right (h x)\<rparr> else t)"
    by (rule left_rotate_explicit) (use loc r_eq yl xn assms(4) nrl in \<open>auto simp: set_flat\<close>)
  have "is_tree (rotated_left h (nil t) x) (nil t) (nil t)
          (if root t = x then right (h x) else root t) (rotL x T)"
    by (rule rotL_tree[OF assms(1,2) nlT assms(3,4)])
  then show "is_tree (rotated_left h (nil t) x) (nil t) (nil t)
           (if parent (h x) = nil t then right (h x) else root t) (rotL x T)"
    using is_tree_root_parent[OF assms(1,3)] by auto
qed

lemma right_rotate_tree:
  assumes "is_tree h (nil t) (nil t) (root t) T" "distinct (flat T)" "x \<in> refs T"
    "left (h x) \<noteq> nil t"
  shows "right_rotate h t x =
           (rotated_right h (nil t) x, if parent (h x) = nil t then t\<lparr>root := left (h x)\<rparr> else t)"
    and "is_tree (rotated_right h (nil t) x) (nil t) (nil t)
           (if parent (h x) = nil t then left (h x) else root t) (rotR x T)"
proof -
  have nlT: "nil t \<notin> refs T" using assms(1) is_tree_nil_notin by blast
  from subtree_at[OF assms(1,2) nlT assms(3)] obtain l r where
    loc: "is_tree h (nil t) (parent (h x)) x (Bin l x r)" "distinct (flat (Bin l x r))"
      "parent (h x) \<notin> refs (Bin l x r)"
    by blast
  from loc(1) assms(4) obtain ll lr where l_eq: "l = Bin ll (left (h x)) lr"
    by (cases l) auto
  from loc(1) l_eq have lr: "is_tree h (nil t) (left (h x)) (right (h (left (h x)))) lr"
    and xn: "x \<noteq> nil t"
    by auto
  have yr: "right (h (left (h x))) \<in> insert (nil t) (refs lr)"
    using lr is_tree_root_in by blast
  have nlr: "nil t \<notin> refs lr" using lr is_tree_nil_notin by blast
  show "right_rotate h t x =
           (rotated_right h (nil t) x, if parent (h x) = nil t then t\<lparr>root := left (h x)\<rparr> else t)"
    by (rule right_rotate_explicit) (use loc l_eq yr xn assms(4) nlr in \<open>auto simp: set_flat\<close>)
  have "is_tree (rotated_right h (nil t) x) (nil t) (nil t)
          (if root t = x then left (h x) else root t) (rotR x T)"
    by (rule rotR_tree[OF assms(1,2) nlT assms(3,4)])
  then show "is_tree (rotated_right h (nil t) x) (nil t) (nil t)
           (if parent (h x) = nil t then left (h x) else root t) (rotR x T)"
    using is_tree_root_parent[OF assms(1,3)] by auto
qed

lemma is_tree_set_color: "is_tree (set_color h a c) nl p n T = is_tree h nl p n T"
  by (induction T arbitrary: p n) (auto simp: set_color_def)

lemma RED_neq_BLACK: "RED \<noteq> BLACK"
  by (simp add: RED_def BLACK_def)

lemma not_RED: "(c \<noteq> RED) = (c = BLACK)"
  by (auto simp: RED_def BLACK_def)

lemma set_color_fields [simp]:
  "parent (set_color h a c b) = parent (h b)"
  "left (set_color h a c b) = left (h b)"
  "right (set_color h a c b) = right (h b)"
  "key (set_color h a c b) = key (h b)"
  "val (set_color h a c b) = val (h b)"
  "color (set_color h a c b) = (if b = a then c else color (h b))"
  by (auto simp: set_color_def)

lemma set_color_other: "b \<noteq> a \<Longrightarrow> set_color h a c b = h b"
  by (simp add: set_color_def)

text \<open>What the red parent of \<open>z\<close> gives: the parent and the grandparent are nodes of the tree.\<close>

lemma fixup_local:
  assumes inv: "fix_inv h0 F T h t z" and red: "color (h (parent (h z))) = RED"
  shows "parent (h z) \<noteq> nil t" "z \<noteq> root t" "parent (h z) \<in> refs T"
    "left (h (parent (h z))) = z \<or> right (h (parent (h z))) = z"
    "parent (h z) \<noteq> root t" "parent (h (parent (h z))) \<noteq> nil t"
    "parent (h (parent (h z))) \<in> refs T"
    "left (h (parent (h (parent (h z))))) = parent (h z) \<or>
     right (h (parent (h (parent (h z))))) = parent (h z)"
    "depth z T = Suc (Suc (depth (parent (h (parent (h z)))) T))"
proof -
  from inv have T: "is_tree h (nil t) (nil t) (root t) T" and d: "distinct (flat T)"
    and z: "z \<in> refs T" and rb: "z \<noteq> root t \<longrightarrow> color (h (root t)) = BLACK"
    and nb: "color (h (nil t)) = BLACK"
    by (auto simp: fix_inv_def)
  show pn: "parent (h z) \<noteq> nil t" using red nb by (auto simp: RED_def BLACK_def)
  show zr: "z \<noteq> root t" using is_tree_root_parent[OF T z] pn by simp
  from is_tree_parent_in[OF T z zr]
  show p: "parent (h z) \<in> refs T"
    and "left (h (parent (h z))) = z \<or> right (h (parent (h z))) = z"
    by auto
  show pr: "parent (h z) \<noteq> root t" using rb zr red by (auto simp: RED_def BLACK_def)
  show "parent (h (parent (h z))) \<noteq> nil t" using is_tree_root_parent[OF T p] pr by simp
  from is_tree_parent_in[OF T p pr]
  show "parent (h (parent (h z))) \<in> refs T"
    and "left (h (parent (h (parent (h z))))) = parent (h z) \<or>
     right (h (parent (h (parent (h z))))) = parent (h z)"
    by auto
  show "depth z T = Suc (Suc (depth (parent (h (parent (h z)))) T))"
    using depth_parent[OF T d z zr] depth_parent[OF T d p pr] by simp
qed

lemma fixup_body_left_red:
  assumes inv: "fix_inv h0 F T h t z" and red: "color (h (parent (h z))) = RED"
    and side: "left (h (parent (h (parent (h z))))) = parent (h z)"
      "right (h (parent (h (parent (h z))))) \<noteq> parent (h z)"
    and uncle: "color (h (right (h (parent (h (parent (h z))))))) = RED"
  shows "\<exists>h' t' z'. insert_fixup_body h t z = (h', t', z') \<and> fix_inv h0 F T h' t' z' \<and>
           nil t' = nil t \<and> depth z' T < depth z T"
proof -
  let ?p = "parent (h z)"
  let ?g = "parent (h ?p)"
  let ?y = "right (h ?g)"
  let ?h = "set_color (set_color (set_color h ?p BLACK) ?y BLACK) ?g RED"
  note loc = fixup_local[OF inv red]
  from inv have T: "is_tree h (nil t) (nil t) (root t) T" and d: "distinct (flat T)"
    and F: "flat T = F"
    and z: "z \<in> refs T" and rb: "z \<noteq> root t \<longrightarrow> color (h (root t)) = BLACK"
    and nb: "color (h (nil t)) = BLACK"
    and fr: "\<forall>a. a \<notin> set F \<longrightarrow> h a = h0 a"
    and kv: "\<forall>a. key (h a) = key (h0 a) \<and> val (h a) = val (h0 a)"
    by (auto simp: fix_inv_def)
  have yn: "?y \<noteq> nil t" using uncle nb by (auto simp: RED_def BLACK_def)
  have yT: "?y \<in> refs T" using is_tree_children_in[OF T loc(7)] yn by auto
  have side': "?p \<noteq> right (h ?g)" using side(2) by auto
  have body: "insert_fixup_body h t z = (?h, t, ?g)"
    by (simp add: insert_fixup_body_def Let_def side side' uncle)
  have gsub: "\<exists>l r. is_tree h (nil t) (parent (h ?g)) ?g (Bin l ?g r)"
    using subtree_at[OF T d _ loc(7)] is_tree_nil_notin[OF T] by blast
  then have py: "parent (h ?y) = ?g" using yn by (auto elim!: is_tree.elims)
  have yr: "?y \<noteq> root t" using is_tree_root_parent[OF T yT] py loc(6) by auto
  have "fix_inv h0 F T ?h t ?g"
    unfolding fix_inv_def
  proof (intro conjI allI impI)
    show "is_tree ?h (nil t) (nil t) (root t) T" using T by (simp add: is_tree_set_color)
    show "distinct (flat T)" "flat T = F" "?g \<in> refs T" using d F loc(7) by auto
    show "color (?h (root t)) = BLACK" if "?g \<noteq> root t"
      using that yr loc(5) rb loc(2) by simp
    show "color (?h (nil t)) = BLACK" using nb yn loc(1,6) by simp
    show "?h a = h0 a" if "a \<notin> set F" for a
    proof -
      have "a \<noteq> ?p" "a \<noteq> ?y" "a \<noteq> ?g" using that F loc(3,7) yT set_flat by auto
      then show ?thesis using fr that by (simp add: set_color_other)
    qed
    show "key (?h a) = key (h0 a)" "val (?h a) = val (h0 a)" for a using kv by auto
  qed
  moreover have "depth ?g T < depth z T" using loc(9) by simp
  ultimately show ?thesis using body by blast
qed

lemma rotated_left_data [simp]:
  "key (rotated_left h nl x a) = key (h a)"
  "val (rotated_left h nl x a) = val (h a)"
  "color (rotated_left h nl x a) = color (h a)"
  by (simp_all add: rotated_left_def Let_def)

lemma rotated_right_data [simp]:
  "key (rotated_right h nl x a) = key (h a)"
  "val (rotated_right h nl x a) = val (h a)"
  "color (rotated_right h nl x a) = color (h a)"
  by (simp_all add: rotated_right_def Let_def)

lemma rotated_left_frame:
  assumes "is_tree h nl nl rt T" "x \<in> refs T" "right (h x) \<noteq> nl" "a \<notin> refs T"
  shows "rotated_left h nl x a = h a"
proof (rule rotated_left_other)
  have y: "right (h x) \<in> refs T" using is_tree_children_in[OF assms(1,2)] assms(3) by auto
  show "a \<noteq> x" using assms by auto
  show "a \<noteq> right (h x)" using y assms(4) by auto
  show "a \<noteq> left (h (right (h x))) \<or> left (h (right (h x))) = nl"
    using is_tree_children_in[OF assms(1) y] assms(4) by auto
  show "a \<noteq> parent (h x) \<or> parent (h x) = nl"
    using is_tree_parent_in[OF assms(1,2)] is_tree_root_parent[OF assms(1,2)] assms(4) by auto
qed

lemma rotated_right_frame:
  assumes "is_tree h nl nl rt T" "x \<in> refs T" "left (h x) \<noteq> nl" "a \<notin> refs T"
  shows "rotated_right h nl x a = h a"
proof (rule rotated_right_other)
  have y: "left (h x) \<in> refs T" using is_tree_children_in[OF assms(1,2)] assms(3) by auto
  show "a \<noteq> x" using assms by auto
  show "a \<noteq> left (h x)" using y assms(4) by auto
  show "a \<noteq> right (h (left (h x))) \<or> right (h (left (h x))) = nl"
    using is_tree_children_in[OF assms(1) y] assms(4) by auto
  show "a \<noteq> parent (h x) \<or> parent (h x) = nl"
    using is_tree_parent_in[OF assms(1,2)] is_tree_root_parent[OF assms(1,2)] assms(4) by auto
qed

lemma left_child_shape:
  "is_tree h nl gp g (Bin gl g gr) \<Longrightarrow> left (h g) = p \<Longrightarrow> p \<noteq> nl \<Longrightarrow> \<exists>pl pr. gl = Bin pl p pr"
  by (cases gl) auto

lemma right_child_shape:
  "is_tree h nl gp g (Bin gl g gr) \<Longrightarrow> right (h g) = p \<Longrightarrow> p \<noteq> nl \<Longrightarrow> \<exists>pl pr. gr = Bin pl p pr"
  by (cases gr) auto

text \<open>The subtree at the grandparent, when the parent is its left child.\<close>

lemma fixup_shape_left:
  assumes inv: "fix_inv h0 F T h t z" and pz: "parent (h z) = p" and pg: "parent (h p) = g"
    and red: "color (h p) = RED" and side: "left (h g) = p"
  shows "\<exists>pl pr gr.
           is_tree h (nil t) (parent (h g)) g (Bin (Bin pl p pr) g gr) \<and>
           distinct (flat (Bin (Bin pl p pr) g gr)) \<and>
           parent (h g) \<notin> refs (Bin (Bin pl p pr) g gr)"
proof -
  have red': "color (h (parent (h z))) = RED" by (simp add: pz red)
  note loc = fixup_local[OF inv red', unfolded pz pg]
  from inv have T: "is_tree h (nil t) (nil t) (root t) T" and d: "distinct (flat T)"
    by (auto simp: fix_inv_def)
  from subtree_at[OF T d is_tree_nil_notin[OF T] loc(7)] obtain gl gr where
    G: "is_tree h (nil t) (parent (h g)) g (Bin gl g gr)"
       "distinct (flat (Bin gl g gr))"
       "parent (h g) \<notin> refs (Bin gl g gr)"
    by blast
  from left_child_shape[OF G(1) side loc(1)] obtain pl pr where "gl = Bin pl p pr"
    by blast
  with G show ?thesis by blast
qed

lemma fixup_outer_left:
  assumes T: "is_tree h (nil t) (nil t) (root t) T" and d: "distinct (flat T)"
    and G: "is_tree h (nil t) gp g (Bin (Bin (Bin zl z zr) p pr) g gr)"
    and dG: "distinct (flat (Bin (Bin (Bin zl z zr) p pr) g gr))"
    and gpn: "gp \<notin> refs (Bin (Bin (Bin zl z zr) p pr) g gr)"
    and gT: "g \<in> refs T" and pT: "p \<in> refs T"
    and rb: "color (h (root t)) = BLACK" and nb: "color (h (nil t)) = BLACK"
  shows "\<exists>h4 t4. right_rotate (set_color (set_color h p BLACK) g RED) t g = (h4, t4) \<and>
           nil t4 = nil t \<and>
           is_tree h4 (nil t) (nil t) (root t4) (rotR g T) \<and>
           parent (h4 z) = p \<and> color (h4 p) = BLACK \<and>
           color (h4 (root t4)) = BLACK \<and> color (h4 (nil t)) = BLACK \<and>
           (\<forall>a. a \<notin> refs T \<longrightarrow> h4 a = h a) \<and>
           (\<forall>a. key (h4 a) = key (h a) \<and> val (h4 a) = val (h a))"
proof -
  let ?h3 = "set_color (set_color h p BLACK) g RED"
  let ?h4 = "rotated_right ?h3 (nil t) g"
  let ?t4 = "if parent (?h3 g) = nil t then t\<lparr>root := left (?h3 g)\<rparr> else t"
  have T3: "is_tree ?h3 (nil t) (nil t) (root t) T" using T by (simp add: is_tree_set_color)
  from G have lg: "left (h g) = p" and pg: "parent (h g) = gp" and lp: "left (h p) = z"
    and pz: "parent (h z) = p" and pp: "parent (h p) = g"
    and nn: "g \<noteq> nil t" "p \<noteq> nil t" "z \<noteq> nil t"
    and prt: "is_tree h (nil t) p (right (h p)) pr"
    by auto
  from dG gpn have ne: "z \<noteq> g" "z \<noteq> p" "p \<noteq> g" "z \<notin> refs pr" "gp \<noteq> z" "gp \<noteq> p" "gp \<noteq> g"
    by (auto simp: set_flat)
  have rp: "right (h p) \<noteq> z" using is_tree_root_in[OF prt] ne nn by auto
  have lg3: "left (?h3 g) \<noteq> nil t" using lg nn by simp
  note rr = right_rotate_tree[OF T3 d gT lg3]
  have rt: "(gp = nil t) = (g = root t)" using is_tree_root_parent[OF T gT] pg by simp
  have "parent (?h4 z) = p"
    using ne rp lg pg pz by (simp add: rotated_right_def Let_def)
  moreover have "color (?h4 p) = BLACK" using ne by simp
  moreover have "color (?h4 (root ?t4)) = BLACK"
  proof (cases "gp = nil t")
    case True
    then have "root ?t4 = p" by (simp add: pg lg)
    then show ?thesis using ne by simp
  next
    case False
    then have "root ?t4 = root t" "root t \<noteq> g" using rt by (simp_all add: pg)
    then show ?thesis using rb by simp
  qed
  moreover have "color (?h4 (nil t)) = BLACK" using nb nn by simp
  moreover have "\<forall>a. a \<notin> refs T \<longrightarrow> ?h4 a = h a"
  proof (intro allI impI)
    fix a assume a: "a \<notin> refs T"
    have "?h4 a = ?h3 a" by (rule rotated_right_frame[OF T3 gT lg3 a])
    moreover have "a \<noteq> p" "a \<noteq> g" using a gT pT by auto
    ultimately show "?h4 a = h a" by (simp add: set_color_other)
  qed
  moreover have "\<forall>a. key (?h4 a) = key (h a) \<and> val (?h4 a) = val (h a)" by simp
  moreover have "nil ?t4 = nil t" by simp
  moreover have "is_tree ?h4 (nil t) (nil t) (root ?t4) (rotR g T)"
    using rr(2) by (simp split: if_splits)
  ultimately show ?thesis using rr(1) by blast
qed

lemma fix_invI:
  assumes "is_tree h (nil t) (nil t) (root t) T" "distinct (flat T)" "flat T = F" "z \<in> refs T"
    "color (h (root t)) = BLACK" "color (h (nil t)) = BLACK"
    "\<forall>a. a \<notin> set F \<longrightarrow> h a = h0 a"
    "\<forall>a. key (h a) = key (h0 a) \<and> val (h a) = val (h0 a)"
  shows "fix_inv h0 F T h t z"
  using assms by (simp add: fix_inv_def)

lemma fixup_body_left_black:
  assumes inv: "fix_inv h0 F T h t z" and pz: "parent (h z) = p" and pg: "parent (h p) = g"
    and red: "color (h p) = RED"
    and side: "left (h g) = p" "right (h g) \<noteq> p"
    and uncle: "color (h (right (h g))) \<noteq> RED"
  shows "\<exists>h' t' z' T'. insert_fixup_body h t z = (h', t', z') \<and> fix_inv h0 F T' h' t' z' \<and>
           nil t' = nil t \<and> color (h' (parent (h' z'))) = BLACK"
proof -
  have red': "color (h (parent (h z))) = RED" by (simp add: pz red)
  note loc = fixup_local[OF inv red', unfolded pz pg]
  from inv have T: "is_tree h (nil t) (nil t) (root t) T" and d: "distinct (flat T)"
    and F: "flat T = F"
    and z: "z \<in> refs T" and rb0: "z \<noteq> root t \<longrightarrow> color (h (root t)) = BLACK"
    and nb: "color (h (nil t)) = BLACK"
    and fr: "\<forall>a. a \<notin> set F \<longrightarrow> h a = h0 a"
    and kv: "\<forall>a. key (h a) = key (h0 a) \<and> val (h a) = val (h0 a)"
    by (auto simp: fix_inv_def)
  have side': "p \<noteq> right (h g)" using side(2) by auto
  have rb: "color (h (root t)) = BLACK" using rb0 loc(2) by simp
  have zn: "z \<noteq> nil t" using z is_tree_nil_notin[OF T] by auto
  have FT: "set F = refs T" using F set_flat by metis
  from fixup_shape_left[OF inv pz pg red side(1)] obtain pl pr gr where
    G: "is_tree h (nil t) (parent (h g)) g (Bin (Bin pl p pr) g gr)"
    and dG: "distinct (flat (Bin (Bin pl p pr) g gr))"
    and gpn: "parent (h g) \<notin> refs (Bin (Bin pl p pr) g gr)"
    by blast
  from G have P: "is_tree h (nil t) g p (Bin pl p pr)" by auto
  show ?thesis
  proof (cases "right (h p) = z")
    case False
    then have lz: "left (h p) = z" using loc(4) by simp
    from left_child_shape[OF P lz zn] obtain zl zr where pl: "pl = Bin zl z zr" by blast
    from fixup_outer_left[OF T d G[unfolded pl] dG[unfolded pl] gpn[unfolded pl] loc(7) loc(3) rb nb]
    obtain h4 t4 where
      rot: "right_rotate (set_color (set_color h p BLACK) g RED) t g = (h4, t4)"
      and out: "nil t4 = nil t" "is_tree h4 (nil t) (nil t) (root t4) (rotR g T)"
        "parent (h4 z) = p" "color (h4 p) = BLACK" "color (h4 (root t4)) = BLACK"
        "color (h4 (nil t)) = BLACK" "\<forall>a. a \<notin> refs T \<longrightarrow> h4 a = h a"
        "\<forall>a. key (h4 a) = key (h a) \<and> val (h4 a) = val (h a)"
      by blast
    have zr: "z \<noteq> right (h p)" using False by simp
    have body: "insert_fixup_body h t z = (h4, t4, z)"
      unfolding insert_fixup_body_def
      by (simp add: pz pg side side' uncle zr Let_def rot)
    have "fix_inv h0 F (rotR g T) h4 t4 z"
    proof (rule fix_invI)
      show "is_tree h4 (nil t4) (nil t4) (root t4) (rotR g T)" using out by simp
      show "distinct (flat (rotR g T))" "flat (rotR g T) = F" "z \<in> refs (rotR g T)"
        using d F z by (simp_all add: flat_rotR refs_rotR)
      show "color (h4 (root t4)) = BLACK" "color (h4 (nil t4)) = BLACK" using out by simp_all
      show "\<forall>a. a \<notin> set F \<longrightarrow> h4 a = h0 a" using out(7) fr FT by simp
      show "\<forall>a. key (h4 a) = key (h0 a) \<and> val (h4 a) = val (h0 a)" using out(8) kv by simp
    qed
    moreover have "color (h4 (parent (h4 z))) = BLACK" using out by simp
    ultimately show ?thesis using body out(1) by blast
  next
    case True
    let ?h1 = "rotated_left h (nil t) p"
    from right_child_shape[OF P True zn] obtain zl zr where pr: "pr = Bin zl z zr" by blast
    have rz: "right (h p) \<noteq> nil t" using True zn by simp
    note lr = left_rotate_tree[OF T d loc(3) rz]
    have gn: "g \<noteq> nil t" using loc(6) .
    have lrot: "left_rotate h t p = (?h1, t)" using lr(1) gn by (simp add: pg)
    have T1: "is_tree ?h1 (nil t) (nil t) (root t) (rotL p T)" using lr(2) gn by (simp add: pg)
    have pG: "p \<in> refs (Bin (Bin pl p pr) g gr)" by simp
    from dG have pne: "p \<noteq> g" "p \<notin> refs gr" by (auto simp: set_flat)
    have G1: "is_tree ?h1 (nil t) (parent (h g)) g (Bin (Bin (Bin pl p zl) z zr) g gr)"
      using rotL_tree[OF G dG gpn pG rz] pne rot_notin[OF pne(2)] dG
      by (simp add: pr True set_flat)
    have dG1: "distinct (flat (Bin (Bin (Bin pl p zl) z zr) g gr))"
      using dG by (simp add: pr)
    have gpn1: "parent (h g) \<notin> refs (Bin (Bin (Bin pl p zl) z zr) g gr)"
      using gpn by (simp add: pr)
    have d1: "distinct (flat (rotL p T))" using d by (simp add: flat_rotL)
    have gT1: "g \<in> refs (rotL p T)" and zT1: "z \<in> refs (rotL p T)"
      using loc(7) z by (simp_all add: refs_rotL)
    have rb1: "color (?h1 (root t)) = BLACK" and nb1: "color (?h1 (nil t)) = BLACK"
      using rb nb by simp_all
    from fixup_outer_left[OF T1 d1 G1 dG1 gpn1 gT1 zT1 rb1 nb1]
    obtain h4 t4 where
      rot: "right_rotate (set_color (set_color ?h1 z BLACK) g RED) t g = (h4, t4)"
      and out: "nil t4 = nil t" "is_tree h4 (nil t) (nil t) (root t4) (rotR g (rotL p T))"
        "parent (h4 p) = z" "color (h4 z) = BLACK" "color (h4 (root t4)) = BLACK"
        "color (h4 (nil t)) = BLACK" "\<forall>a. a \<notin> refs (rotL p T) \<longrightarrow> h4 a = ?h1 a"
        "\<forall>a. key (h4 a) = key (?h1 a) \<and> val (h4 a) = val (?h1 a)"
      by blast
    from G1 have p1: "parent (?h1 p) = z" "parent (?h1 z) = g" by auto
    have body: "insert_fixup_body h t z = (h4, t4, p)"
      unfolding insert_fixup_body_def
      by (simp add: pz pg side side' uncle True Let_def lrot p1 rot)
    have "fix_inv h0 F (rotR g (rotL p T)) h4 t4 p"
    proof (rule fix_invI)
      show "is_tree h4 (nil t4) (nil t4) (root t4) (rotR g (rotL p T))" using out by simp
      show "distinct (flat (rotR g (rotL p T)))" "flat (rotR g (rotL p T)) = F"
        "p \<in> refs (rotR g (rotL p T))"
        using d F loc(3) by (simp_all add: flat_rotR refs_rotR flat_rotL refs_rotL)
      show "color (h4 (root t4)) = BLACK" "color (h4 (nil t4)) = BLACK" using out by simp_all
      show "\<forall>a. a \<notin> set F \<longrightarrow> h4 a = h0 a"
      proof (intro allI impI)
        fix a assume a: "a \<notin> set F"
        then have aT: "a \<notin> refs T" using FT by simp
        have "h4 a = ?h1 a" using out(7) aT by (simp add: refs_rotL)
        also have "\<dots> = h a" by (rule rotated_left_frame[OF T loc(3) rz aT])
        also have "\<dots> = h0 a" using fr a by simp
        finally show "h4 a = h0 a" .
      qed
      show "\<forall>a. key (h4 a) = key (h0 a) \<and> val (h4 a) = val (h0 a)" using out(8) kv by simp
    qed
    moreover have "color (h4 (parent (h4 p))) = BLACK" using out by simp
    ultimately show ?thesis using body out(1) by blast
  qed
qed

lemma fixup_shape_right:
  assumes inv: "fix_inv h0 F T h t z" and pz: "parent (h z) = p" and pg: "parent (h p) = g"
    and red: "color (h p) = RED" and side: "right (h g) = p"
  shows "\<exists>pl pr gr.
           is_tree h (nil t) (parent (h g)) g (Bin gr g (Bin pr p pl)) \<and>
           distinct (flat (Bin gr g (Bin pr p pl))) \<and>
           parent (h g) \<notin> refs (Bin gr g (Bin pr p pl))"
proof -
  have red': "color (h (parent (h z))) = RED" by (simp add: pz red)
  note loc = fixup_local[OF inv red', unfolded pz pg]
  from inv have T: "is_tree h (nil t) (nil t) (root t) T" and d: "distinct (flat T)"
    by (auto simp: fix_inv_def)
  from subtree_at[OF T d is_tree_nil_notin[OF T] loc(7)] obtain gl gr where
    G: "is_tree h (nil t) (parent (h g)) g (Bin gr g gl)"
       "distinct (flat (Bin gr g gl))"
       "parent (h g) \<notin> refs (Bin gr g gl)"
    by blast
  from right_child_shape[OF G(1) side loc(1)] obtain pl pr where "gl = Bin pr p pl"
    by blast
  with G show ?thesis by blast
qed

lemma fixup_outer_right:
  assumes T: "is_tree h (nil t) (nil t) (root t) T" and d: "distinct (flat T)"
    and G: "is_tree h (nil t) gp g (Bin gr g (Bin pr p (Bin zr z zl)))"
    and dG: "distinct (flat (Bin gr g (Bin pr p (Bin zr z zl))))"
    and gpn: "gp \<notin> refs (Bin gr g (Bin pr p (Bin zr z zl)))"
    and gT: "g \<in> refs T" and pT: "p \<in> refs T"
    and rb: "color (h (root t)) = BLACK" and nb: "color (h (nil t)) = BLACK"
  shows "\<exists>h4 t4. left_rotate (set_color (set_color h p BLACK) g RED) t g = (h4, t4) \<and>
           nil t4 = nil t \<and>
           is_tree h4 (nil t) (nil t) (root t4) (rotL g T) \<and>
           parent (h4 z) = p \<and> color (h4 p) = BLACK \<and>
           color (h4 (root t4)) = BLACK \<and> color (h4 (nil t)) = BLACK \<and>
           (\<forall>a. a \<notin> refs T \<longrightarrow> h4 a = h a) \<and>
           (\<forall>a. key (h4 a) = key (h a) \<and> val (h4 a) = val (h a))"
proof -
  let ?h3 = "set_color (set_color h p BLACK) g RED"
  let ?h4 = "rotated_left ?h3 (nil t) g"
  let ?t4 = "if parent (?h3 g) = nil t then t\<lparr>root := right (?h3 g)\<rparr> else t"
  have T3: "is_tree ?h3 (nil t) (nil t) (root t) T" using T by (simp add: is_tree_set_color)
  from G have lg: "right (h g) = p" and pg: "parent (h g) = gp" and lp: "right (h p) = z"
    and pz: "parent (h z) = p" and pp: "parent (h p) = g"
    and nn: "g \<noteq> nil t" "p \<noteq> nil t" "z \<noteq> nil t"
    and prt: "is_tree h (nil t) p (left (h p)) pr"
    by auto
  from dG gpn have ne: "z \<noteq> g" "z \<noteq> p" "p \<noteq> g" "z \<notin> refs pr" "gp \<noteq> z" "gp \<noteq> p" "gp \<noteq> g"
    by (auto simp: set_flat)
  have rp: "left (h p) \<noteq> z" using is_tree_root_in[OF prt] ne nn by auto
  have lg3: "right (?h3 g) \<noteq> nil t" using lg nn by simp
  note rr = left_rotate_tree[OF T3 d gT lg3]
  have rt: "(gp = nil t) = (g = root t)" using is_tree_root_parent[OF T gT] pg by simp
  have "parent (?h4 z) = p"
    using ne rp lg pg pz by (simp add: rotated_left_def Let_def)
  moreover have "color (?h4 p) = BLACK" using ne by simp
  moreover have "color (?h4 (root ?t4)) = BLACK"
  proof (cases "gp = nil t")
    case True
    then have "root ?t4 = p" by (simp add: pg lg)
    then show ?thesis using ne by simp
  next
    case False
    then have "root ?t4 = root t" "root t \<noteq> g" using rt by (simp_all add: pg)
    then show ?thesis using rb by simp
  qed
  moreover have "color (?h4 (nil t)) = BLACK" using nb nn by simp
  moreover have "\<forall>a. a \<notin> refs T \<longrightarrow> ?h4 a = h a"
  proof (intro allI impI)
    fix a assume a: "a \<notin> refs T"
    have "?h4 a = ?h3 a" by (rule rotated_left_frame[OF T3 gT lg3 a])
    moreover have "a \<noteq> p" "a \<noteq> g" using a gT pT by auto
    ultimately show "?h4 a = h a" by (simp add: set_color_other)
  qed
  moreover have "\<forall>a. key (?h4 a) = key (h a) \<and> val (?h4 a) = val (h a)" by simp
  moreover have "nil ?t4 = nil t" by simp
  moreover have "is_tree ?h4 (nil t) (nil t) (root ?t4) (rotL g T)"
    using rr(2) by (simp split: if_splits)
  ultimately show ?thesis using rr(1) by blast
qed

lemma fixup_body_right_red:
  assumes inv: "fix_inv h0 F T h t z" and red: "color (h (parent (h z))) = RED"
    and side: "right (h (parent (h (parent (h z))))) = parent (h z)"
      "left (h (parent (h (parent (h z))))) \<noteq> parent (h z)"
    and uncle: "color (h (left (h (parent (h (parent (h z))))))) = RED"
  shows "\<exists>h' t' z'. insert_fixup_body h t z = (h', t', z') \<and> fix_inv h0 F T h' t' z' \<and>
           nil t' = nil t \<and> depth z' T < depth z T"
proof -
  let ?p = "parent (h z)"
  let ?g = "parent (h ?p)"
  let ?y = "left (h ?g)"
  let ?h = "set_color (set_color (set_color h ?p BLACK) ?y BLACK) ?g RED"
  note loc = fixup_local[OF inv red]
  from inv have T: "is_tree h (nil t) (nil t) (root t) T" and d: "distinct (flat T)"
    and F: "flat T = F"
    and z: "z \<in> refs T" and rb: "z \<noteq> root t \<longrightarrow> color (h (root t)) = BLACK"
    and nb: "color (h (nil t)) = BLACK"
    and fr: "\<forall>a. a \<notin> set F \<longrightarrow> h a = h0 a"
    and kv: "\<forall>a. key (h a) = key (h0 a) \<and> val (h a) = val (h0 a)"
    by (auto simp: fix_inv_def)
  have yn: "?y \<noteq> nil t" using uncle nb by (auto simp: RED_def BLACK_def)
  have yT: "?y \<in> refs T" using is_tree_children_in[OF T loc(7)] yn by auto
  have side': "?p \<noteq> left (h ?g)" using side(2) by auto
  have body: "insert_fixup_body h t z = (?h, t, ?g)"
    by (simp add: insert_fixup_body_def Let_def side side' uncle)
  have gsub: "\<exists>l r. is_tree h (nil t) (parent (h ?g)) ?g (Bin r ?g l)"
    using subtree_at[OF T d _ loc(7)] is_tree_nil_notin[OF T] by blast
  then have py: "parent (h ?y) = ?g" using yn by (auto elim!: is_tree.elims)
  have yr: "?y \<noteq> root t" using is_tree_root_parent[OF T yT] py loc(6) by auto
  have "fix_inv h0 F T ?h t ?g"
    unfolding fix_inv_def
  proof (intro conjI allI impI)
    show "is_tree ?h (nil t) (nil t) (root t) T" using T by (simp add: is_tree_set_color)
    show "distinct (flat T)" "flat T = F" "?g \<in> refs T" using d F loc(7) by auto
    show "color (?h (root t)) = BLACK" if "?g \<noteq> root t"
      using that yr loc(5) rb loc(2) by simp
    show "color (?h (nil t)) = BLACK" using nb yn loc(1,6) by simp
    show "?h a = h0 a" if "a \<notin> set F" for a
    proof -
      have "a \<noteq> ?p" "a \<noteq> ?y" "a \<noteq> ?g" using that F loc(3,7) yT set_flat by auto
      then show ?thesis using fr that by (simp add: set_color_other)
    qed
    show "key (?h a) = key (h0 a)" "val (?h a) = val (h0 a)" for a using kv by auto
  qed
  moreover have "depth ?g T < depth z T" using loc(9) by simp
  ultimately show ?thesis using body by blast
qed

lemma fixup_body_right_black:
  assumes inv: "fix_inv h0 F T h t z" and pz: "parent (h z) = p" and pg: "parent (h p) = g"
    and red: "color (h p) = RED"
    and side: "right (h g) = p" "left (h g) \<noteq> p"
    and uncle: "color (h (left (h g))) \<noteq> RED"
  shows "\<exists>h' t' z' T'. insert_fixup_body h t z = (h', t', z') \<and> fix_inv h0 F T' h' t' z' \<and>
           nil t' = nil t \<and> color (h' (parent (h' z'))) = BLACK"
proof -
  have red': "color (h (parent (h z))) = RED" by (simp add: pz red)
  note loc = fixup_local[OF inv red', unfolded pz pg]
  from inv have T: "is_tree h (nil t) (nil t) (root t) T" and d: "distinct (flat T)"
    and F: "flat T = F"
    and z: "z \<in> refs T" and rb0: "z \<noteq> root t \<longrightarrow> color (h (root t)) = BLACK"
    and nb: "color (h (nil t)) = BLACK"
    and fr: "\<forall>a. a \<notin> set F \<longrightarrow> h a = h0 a"
    and kv: "\<forall>a. key (h a) = key (h0 a) \<and> val (h a) = val (h0 a)"
    by (auto simp: fix_inv_def)
  have side': "p \<noteq> left (h g)" using side(2) by auto
  have rb: "color (h (root t)) = BLACK" using rb0 loc(2) by simp
  have zn: "z \<noteq> nil t" using z is_tree_nil_notin[OF T] by auto
  have FT: "set F = refs T" using F set_flat by metis
  from fixup_shape_right[OF inv pz pg red side(1)] obtain pl pr gr where
    G: "is_tree h (nil t) (parent (h g)) g (Bin gr g (Bin pr p pl))"
    and dG: "distinct (flat (Bin gr g (Bin pr p pl)))"
    and gpn: "parent (h g) \<notin> refs (Bin gr g (Bin pr p pl))"
    by blast
  from G have P: "is_tree h (nil t) g p (Bin pr p pl)" by auto
  show ?thesis
  proof (cases "left (h p) = z")
    case False
    then have lz: "right (h p) = z" using loc(4) by simp
    from right_child_shape[OF P lz zn] obtain zl zr where pl: "pl = Bin zr z zl" by blast
    from fixup_outer_right[OF T d G[unfolded pl] dG[unfolded pl] gpn[unfolded pl] loc(7) loc(3) rb nb]
    obtain h4 t4 where
      rot: "left_rotate (set_color (set_color h p BLACK) g RED) t g = (h4, t4)"
      and out: "nil t4 = nil t" "is_tree h4 (nil t) (nil t) (root t4) (rotL g T)"
        "parent (h4 z) = p" "color (h4 p) = BLACK" "color (h4 (root t4)) = BLACK"
        "color (h4 (nil t)) = BLACK" "\<forall>a. a \<notin> refs T \<longrightarrow> h4 a = h a"
        "\<forall>a. key (h4 a) = key (h a) \<and> val (h4 a) = val (h a)"
      by blast
    have zr: "z \<noteq> left (h p)" using False by simp
    have body: "insert_fixup_body h t z = (h4, t4, z)"
      unfolding insert_fixup_body_def
      by (simp add: pz pg side side' uncle zr Let_def rot)
    have "fix_inv h0 F (rotL g T) h4 t4 z"
    proof (rule fix_invI)
      show "is_tree h4 (nil t4) (nil t4) (root t4) (rotL g T)" using out by simp
      show "distinct (flat (rotL g T))" "flat (rotL g T) = F" "z \<in> refs (rotL g T)"
        using d F z by (simp_all add: flat_rotL refs_rotL)
      show "color (h4 (root t4)) = BLACK" "color (h4 (nil t4)) = BLACK" using out by simp_all
      show "\<forall>a. a \<notin> set F \<longrightarrow> h4 a = h0 a" using out(7) fr FT by simp
      show "\<forall>a. key (h4 a) = key (h0 a) \<and> val (h4 a) = val (h0 a)" using out(8) kv by simp
    qed
    moreover have "color (h4 (parent (h4 z))) = BLACK" using out by simp
    ultimately show ?thesis using body out(1) by blast
  next
    case True
    let ?h1 = "rotated_right h (nil t) p"
    from left_child_shape[OF P True zn] obtain zl zr where pr: "pr = Bin zr z zl" by blast
    have rz: "left (h p) \<noteq> nil t" using True zn by simp
    note lr = right_rotate_tree[OF T d loc(3) rz]
    have gn: "g \<noteq> nil t" using loc(6) .
    have lrot: "right_rotate h t p = (?h1, t)" using lr(1) gn by (simp add: pg)
    have T1: "is_tree ?h1 (nil t) (nil t) (root t) (rotR p T)" using lr(2) gn by (simp add: pg)
    have pG: "p \<in> refs (Bin gr g (Bin pr p pl))" by simp
    from dG have pne: "p \<noteq> g" "p \<notin> refs gr" by (auto simp: set_flat)
    have G1: "is_tree ?h1 (nil t) (parent (h g)) g (Bin gr g (Bin zr z (Bin zl p pl)))"
      using rotR_tree[OF G dG gpn pG rz] pne rot_notin[OF pne(2)] dG
      by (simp add: pr True set_flat)
    have dG1: "distinct (flat (Bin gr g (Bin zr z (Bin zl p pl))))"
      using dG by (simp add: pr)
    have gpn1: "parent (h g) \<notin> refs (Bin gr g (Bin zr z (Bin zl p pl)))"
      using gpn by (simp add: pr)
    have d1: "distinct (flat (rotR p T))" using d by (simp add: flat_rotR)
    have gT1: "g \<in> refs (rotR p T)" and zT1: "z \<in> refs (rotR p T)"
      using loc(7) z by (simp_all add: refs_rotR)
    have rb1: "color (?h1 (root t)) = BLACK" and nb1: "color (?h1 (nil t)) = BLACK"
      using rb nb by simp_all
    from fixup_outer_right[OF T1 d1 G1 dG1 gpn1 gT1 zT1 rb1 nb1]
    obtain h4 t4 where
      rot: "left_rotate (set_color (set_color ?h1 z BLACK) g RED) t g = (h4, t4)"
      and out: "nil t4 = nil t" "is_tree h4 (nil t) (nil t) (root t4) (rotL g (rotR p T))"
        "parent (h4 p) = z" "color (h4 z) = BLACK" "color (h4 (root t4)) = BLACK"
        "color (h4 (nil t)) = BLACK" "\<forall>a. a \<notin> refs (rotR p T) \<longrightarrow> h4 a = ?h1 a"
        "\<forall>a. key (h4 a) = key (?h1 a) \<and> val (h4 a) = val (?h1 a)"
      by blast
    from G1 have p1: "parent (?h1 p) = z" "parent (?h1 z) = g" by auto
    have body: "insert_fixup_body h t z = (h4, t4, p)"
      unfolding insert_fixup_body_def
      by (simp add: pz pg side side' uncle True Let_def lrot p1 rot)
    have "fix_inv h0 F (rotL g (rotR p T)) h4 t4 p"
    proof (rule fix_invI)
      show "is_tree h4 (nil t4) (nil t4) (root t4) (rotL g (rotR p T))" using out by simp
      show "distinct (flat (rotL g (rotR p T)))" "flat (rotL g (rotR p T)) = F"
        "p \<in> refs (rotL g (rotR p T))"
        using d F loc(3) by (simp_all add: flat_rotL refs_rotL flat_rotR refs_rotR)
      show "color (h4 (root t4)) = BLACK" "color (h4 (nil t4)) = BLACK" using out by simp_all
      show "\<forall>a. a \<notin> set F \<longrightarrow> h4 a = h0 a"
      proof (intro allI impI)
        fix a assume a: "a \<notin> set F"
        then have aT: "a \<notin> refs T" using FT by simp
        have "h4 a = ?h1 a" using out(7) aT by (simp add: refs_rotR)
        also have "\<dots> = h a" by (rule rotated_right_frame[OF T loc(3) rz aT])
        also have "\<dots> = h0 a" using fr a by simp
        finally show "h4 a = h0 a" .
      qed
      show "\<forall>a. key (h4 a) = key (h0 a) \<and> val (h4 a) = val (h0 a)" using out(8) kv by simp
    qed
    moreover have "color (h4 (parent (h4 p))) = BLACK" using out by simp
    ultimately show ?thesis using body out(1) by blast
  qed
qed

lemma left_not_right:
  assumes "is_tree h nl gp g (Bin gl g gr)" "distinct (flat (Bin gl g gr))" "left (h g) = p" "p \<noteq> nl"
  shows "right (h g) \<noteq> p"
proof -
  from assms(1) have l: "is_tree h nl g (left (h g)) gl" and r: "is_tree h nl g (right (h g)) gr"
    by auto
  have "p \<in> refs gl" using is_tree_root_in[OF l] assms(3,4) by auto
  moreover have "right (h g) \<in> insert nl (refs gr)" using is_tree_root_in[OF r] by auto
  moreover have "refs gl \<inter> refs gr = {}" using assms(2) by (auto simp: set_flat)
  ultimately show ?thesis using assms(4) by auto
qed

lemma fixup_body_step:
  assumes inv: "fix_inv h0 F T h t z" and red: "color (h (parent (h z))) = RED"
  shows "\<exists>h' t' z' T'. insert_fixup_body h t z = (h', t', z') \<and> fix_inv h0 F T' h' t' z' \<and>
           nil t' = nil t \<and>
           (color (h' (parent (h' z'))) = BLACK \<or> depth z' T' < depth z T)"
proof -
  obtain p where pz: "parent (h z) = p" by simp
  obtain g where pg: "parent (h p) = g" by simp
  have redp: "color (h p) = RED" using red by (simp add: pz)
  note loc = fixup_local[OF inv red, unfolded pz pg]
  from inv have T: "is_tree h (nil t) (nil t) (root t) T" and d: "distinct (flat T)"
    by (auto simp: fix_inv_def)
  from subtree_at[OF T d is_tree_nil_notin[OF T] loc(7)] obtain gl gr where
    G: "is_tree h (nil t) (parent (h g)) g (Bin gl g gr)" "distinct (flat (Bin gl g gr))"
    by blast
  show ?thesis
  proof (cases "left (h g) = p")
    case True
    have nr: "right (h g) \<noteq> p" by (rule left_not_right[OF G True loc(1)])
    show ?thesis
    proof (cases "color (h (right (h g))) = RED")
      case red_uncle: True
      have "\<exists>h' t' z'. insert_fixup_body h t z = (h', t', z') \<and> fix_inv h0 F T h' t' z' \<and>
              nil t' = nil t \<and> depth z' T < depth z T"
        by (rule fixup_body_left_red[OF inv red]) (simp_all add: pz pg True nr red_uncle)
      then show ?thesis by blast
    next
      case False
      from fixup_body_left_black[OF inv pz pg redp True nr False] show ?thesis by blast
    qed
  next
    case False
    then have r: "right (h g) = p" using loc(8) by simp
    show ?thesis
    proof (cases "color (h (left (h g))) = RED")
      case red_uncle: True
      have "\<exists>h' t' z'. insert_fixup_body h t z = (h', t', z') \<and> fix_inv h0 F T h' t' z' \<and>
              nil t' = nil t \<and> depth z' T < depth z T"
        by (rule fixup_body_right_red[OF inv red]) (simp_all add: pz pg r False red_uncle)
      then show ?thesis by blast
    next
      case black: False
      from fixup_body_right_black[OF inv pz pg redp r False black] show ?thesis by blast
    qed
  qed
qed

lemma insert_fixup_loop_stop:
  "color (h (parent (h z))) \<noteq> RED \<Longrightarrow> insert_fixup_loop (h, t, z) = Some (h, t)"
  by (subst insert_fixup_loop.simps) simp

lemma insert_fixup_loop_step:
  "color (h (parent (h z))) = RED \<Longrightarrow>
   insert_fixup_loop (h, t, z) = insert_fixup_loop (insert_fixup_body h t z)"
  by (subst insert_fixup_loop.simps) simp

lemma insert_fixup_loop_returns:
  "fix_inv h0 F T h t z \<Longrightarrow>
   \<exists>h' t' T' z'. insert_fixup_loop (h, t, z) = Some (h', t') \<and> fix_inv h0 F T' h' t' z' \<and>
      nil t' = nil t"
proof (induction "depth z T" arbitrary: h t z T rule: less_induct)
  case less
  show ?case
  proof (cases "color (h (parent (h z))) = RED")
    case False
    then show ?thesis using less.prems insert_fixup_loop_stop[of h z t] by blast
  next
    case True
    from fixup_body_step[OF less.prems True] obtain h1 t1 z1 T1 where
      b: "insert_fixup_body h t z = (h1, t1, z1)" and inv1: "fix_inv h0 F T1 h1 t1 z1"
      and n1: "nil t1 = nil t"
      and m: "color (h1 (parent (h1 z1))) = BLACK \<or> depth z1 T1 < depth z T"
      by blast
    have step: "insert_fixup_loop (h, t, z) = insert_fixup_loop (h1, t1, z1)"
      using insert_fixup_loop_step[of h z t, OF True] b by simp
    from m show ?thesis
    proof
      assume "color (h1 (parent (h1 z1))) = BLACK"
      then have "color (h1 (parent (h1 z1))) \<noteq> RED" by (simp add: RED_def BLACK_def)
      from insert_fixup_loop_stop[of h1 z1 t1, OF this] show ?thesis using step inv1 n1 by metis
    next
      assume "depth z1 T1 < depth z T"
      from less.hyps[OF this inv1] show ?thesis using step n1 by metis
    qed
  qed
qed

lemma linked_new:
  "z \<noteq> y \<Longrightarrow> linked h nl z y z = (h z)\<lparr>color := RED, left := nl, right := nl, parent := y\<rparr>"
  by (simp add: linked_def Let_def set_parent_def set_left_def set_right_def set_color_def)

lemma linked_parent:
  "z \<noteq> y \<Longrightarrow> y \<noteq> nl \<Longrightarrow>
   linked h nl z y y =
     (if key (h z) < key (h y) then (h y)\<lparr>left := z\<rparr> else (h y)\<lparr>right := z\<rparr>)"
  by (simp add: linked_def Let_def set_parent_def set_left_def set_right_def set_color_def)

lemma linked_other:
  "a \<noteq> z \<Longrightarrow> a \<noteq> y \<or> y = nl \<Longrightarrow> linked h nl z y a = h a"
  by (auto simp: linked_def Let_def set_parent_def set_left_def set_right_def set_color_def)

lemma linked_data:
  "key (linked h nl z y a) = key (h a)" "val (linked h nl z y a) = val (h a)"
  "a \<noteq> z \<Longrightarrow> color (linked h nl z y a) = color (h a)"
  by (auto simp: linked_def Let_def set_parent_def set_left_def set_right_def set_color_def)

lemma link_tree:
  assumes "is_tree h nl p n T" "distinct (flat T)" "z \<notin> refs T" "z \<noteq> nl" "z \<noteq> p"
    "p \<notin> refs T" "key (h z) = k"
  shows "is_tree (linked h nl z (last_node h k p T)) nl p (if T = Tip then z else n) (sins h k z T)"
  using assms
proof (induction T arbitrary: p n)
  case Tip
  then show ?case by (simp add: linked_new)
next
  case (Bin l a r)
  let ?y = "last_node h k p (Bin l a r)"
  let ?h = "linked h nl z ?y"
  from Bin.prems have n: "n = a" "a \<noteq> nl" and pa: "parent (h a) = p"
    and l: "is_tree h nl a (left (h a)) l" and r: "is_tree h nl a (right (h a)) r"
    by auto
  from Bin.prems(2) have d: "a \<notin> refs l" "a \<notin> refs r" "refs l \<inter> refs r = {}"
    "distinct (flat l)" "distinct (flat r)"
    by (auto simp: set_flat)
  from Bin.prems(3) have zn: "z \<noteq> a" "z \<notin> refs l" "z \<notin> refs r" by auto
  show ?case
  proof (cases "k < key (h a)")
    case True
    then have y: "?y = last_node h k a l" by simp
    have yin: "?y \<in> insert a (refs l)" unfolding y by (rule last_node_in)
    then have zy: "z \<noteq> ?y" and ynl: "?y \<noteq> nl"
      using zn n is_tree_nil_notin[OF l] by auto
    have IH: "is_tree ?h nl a (if l = Tip then z else left (h a)) (sins h k z l)"
      unfolding y by (rule Bin.IH(1)[OF l d(4) zn(2) Bin.prems(4) zn(1) d(1) Bin.prems(7)])
    have t_r: "is_tree ?h nl a (right (h a)) r"
    proof (rule is_tree_frame[OF r])
      show "\<forall>b\<in>refs r. left (?h b) = left (h b) \<and> right (?h b) = right (h b) \<and> parent (?h b) = parent (h b)"
      proof
        fix b assume b: "b \<in> refs r"
        have "?h b = h b" by (rule linked_other) (use b zn d yin in auto)
        then show "left (?h b) = left (h b) \<and> right (?h b) = right (h b) \<and> parent (?h b) = parent (h b)"
          by simp
      qed
    qed
    have ha: "parent (?h a) = p \<and> right (?h a) = right (h a) \<and>
              left (?h a) = (if l = Tip then z else left (h a))"
    proof (cases "l = Tip")
      case lt: True
      then have "?y = a" using y by simp
      then show ?thesis using linked_parent[of z a nl h] zn n pa True Bin.prems(7) lt by simp
    next
      case False
      then have "?y \<in> refs l" unfolding y by (rule last_node_in_refs)
      then have "a \<noteq> ?y" using d by auto
      then have "?h a = h a" using linked_other[of a z ?y nl h] zn by simp
      then show ?thesis using pa False by simp
    qed
    show ?thesis using IH t_r ha n True by simp
  next
    case False
    then have y: "?y = last_node h k a r" by simp
    have yin: "?y \<in> insert a (refs r)" unfolding y by (rule last_node_in)
    then have zy: "z \<noteq> ?y" and ynl: "?y \<noteq> nl"
      using zn n is_tree_nil_notin[OF r] by auto
    have IH: "is_tree ?h nl a (if r = Tip then z else right (h a)) (sins h k z r)"
      unfolding y by (rule Bin.IH(2)[OF r d(5) zn(3) Bin.prems(4) zn(1) d(2) Bin.prems(7)])
    have t_l: "is_tree ?h nl a (left (h a)) l"
    proof (rule is_tree_frame[OF l])
      show "\<forall>b\<in>refs l. left (?h b) = left (h b) \<and> right (?h b) = right (h b) \<and> parent (?h b) = parent (h b)"
      proof
        fix b assume b: "b \<in> refs l"
        have "?h b = h b" by (rule linked_other) (use b zn d yin in auto)
        then show "left (?h b) = left (h b) \<and> right (?h b) = right (h b) \<and> parent (?h b) = parent (h b)"
          by simp
      qed
    qed
    have ha: "parent (?h a) = p \<and> left (?h a) = left (h a) \<and>
              right (?h a) = (if r = Tip then z else right (h a))"
    proof (cases "r = Tip")
      case rt: True
      then have "?y = a" using y by simp
      then show ?thesis using linked_parent[of z a nl h] zn n pa False Bin.prems(7) rt by simp
    next
      case nt: False
      then have "?y \<in> refs r" unfolding y by (rule last_node_in_refs)
      then have "a \<noteq> ?y" using d by auto
      then have "?h a = h a" using linked_other[of a z ?y nl h] zn by simp
      then show ?thesis using pa nt by simp
    qed
    show ?thesis using IH t_l ha n False by simp
  qed
qed

lemma distinct_sins:
  "distinct (flat T) \<Longrightarrow> z \<notin> refs T \<Longrightarrow> distinct (flat (sins h k z T))"
  by (induction T) (auto simp: set_flat refs_sins)

lemma ins_entry_append_lt:
  "fst e < fst x \<Longrightarrow> ins_entry e (xs @ x # ys) = ins_entry e xs @ x # ys"
  by (induction xs) auto

lemma ins_entry_append_ge:
  "\<forall>y\<in>set xs. fst y \<le> fst e \<Longrightarrow> \<not> fst e < fst x \<Longrightarrow>
   ins_entry e (xs @ x # ys) = xs @ x # ins_entry e ys"
  by (induction xs) auto

lemma set_ins_entry: "set (ins_entry e xs) = insert e (set xs)"
  by (induction xs) auto

lemma sorted_ins_entry:
  "sorted (map fst xs) \<Longrightarrow> sorted (map fst (ins_entry e xs))"
  by (induction xs) (auto simp: set_ins_entry)

lemma mset_like_ins_entry: "length (ins_entry e xs) = Suc (length xs)"
  by (induction xs) auto

lemma sum_list_ins_entry:
  "sum_list (map f (ins_entry e xs)) = f e + sum_list (map f xs)"
  for f :: "Address \<times> Address \<Rightarrow> int"
  by (induction xs) auto

lemma flat_sins_entries:
  assumes "sorted (map fst (map (entry h) (flat T)))" "key (h z) = k"
  shows "map (entry h) (flat (sins h k z T)) = ins_entry (entry h z) (map (entry h) (flat T))"
  using assms(1)
proof (induction T)
  case Tip
  then show ?case by simp
next
  case (Bin l a r)
  from Bin.prems have sl: "sorted (map fst (map (entry h) (flat l)))"
    and sr: "sorted (map fst (map (entry h) (flat r)))"
    and le: "\<forall>y\<in>set (map (entry h) (flat l)). fst y \<le> fst (entry h a)"
    by (auto simp: sorted_append)
  have fz: "fst (entry h z) = k" and fa: "fst (entry h a) = key (h a)"
    using assms(2) by (simp_all add: entry_def)
  show ?case
  proof (cases "k < key (h a)")
    case True
    then show ?thesis
      using Bin.IH(1)[OF sl] ins_entry_append_lt[of "entry h z" "entry h a"] fz fa by simp
  next
    case False
    have "\<forall>y\<in>set (map (entry h) (flat l)). fst y \<le> fst (entry h z)"
      using le False fz fa by auto
    from ins_entry_append_ge[OF this, of "entry h a"] False fz fa Bin.IH(2)[OF sr]
    show ?thesis by simp
  qed
qed

lemma insert_rb_unfold:
  assumes "insert_descend ((nodes s)(fresh s := \<lparr>key = k, val = v, color = RED,
             left = nil t, right = nil t, parent = nil t\<rparr>)) t k (nil t) (root t) = Some y"
  shows "insert_rb s t k v =
     (case insert_fixup
        (linked ((nodes s)(fresh s := \<lparr>key = k, val = v, color = RED,
             left = nil t, right = nil t, parent = nil t\<rparr>)) (nil t) (fresh s) y)
        (if y = nil t then t\<lparr>root := fresh s\<rparr> else t) (fresh s) of
        None \<Rightarrow> None
      | Some (h6, t6) \<Rightarrow> Some (\<lparr>nodes = h6, fresh = Suc (fresh s)\<rparr>, t6))"
  using assms by (simp add: insert_rb_def linked_def Let_def)

lemma insert_rb_correct:
  assumes inv: "rb_inv s t T"
  shows "\<exists>s' t' T'. insert_rb s t k v = Some (s', t') \<and> rb_inv s' t' T' \<and>
           nil t' = nil t \<and> fresh s' = Suc (fresh s) \<and>
           map (entry (nodes s')) (flat T') = ins_entry (k, v) (map (entry (nodes s)) (flat T)) \<and>
           refs T' = insert (fresh s) (refs T) \<and>
           (\<forall>a. a \<notin> refs T \<and> a \<noteq> fresh s \<longrightarrow> nodes s' a = nodes s a)"
proof -
  let ?z = "fresh s"
  let ?nl = "nil t"
  let ?h0 = "(nodes s)(?z := \<lparr>key = k, val = v, color = RED,
             left = ?nl, right = ?nl, parent = ?nl\<rparr>)"
  let ?y = "last_node ?h0 k ?nl T"
  let ?h5 = "linked ?h0 ?nl ?z ?y"
  let ?t2 = "if ?y = ?nl then t\<lparr>root := ?z\<rparr> else t"
  let ?S = "sins ?h0 k ?z T"
  let ?F = "flat ?S"
  from inv have T: "is_tree (nodes s) ?nl ?nl (root t) T" and d: "distinct (flat T)"
    and srt: "sorted (map fst (map (entry (nodes s)) (flat T)))"
    and bnd: "\<forall>a\<in>refs T. a < ?z" and nlb: "?nl < ?z"
    and nb: "color (nodes s ?nl) = BLACK" and rb: "color (nodes s (root t)) = BLACK"
    by (auto simp: rb_inv_def)
  have zT: "?z \<notin> refs T" using bnd by auto
  have zn: "?z \<noteq> ?nl" using nlb by simp
  have nlT: "?nl \<notin> refs T" by (rule is_tree_nil_notin[OF T])
  have same: "\<forall>a\<in>refs T. ?h0 a = nodes s a" using zT by auto
  have T0: "is_tree ?h0 ?nl ?nl (root t) T"
    by (rule is_tree_frame[OF T]) (use same in auto)
  have ent0: "map (entry ?h0) (flat T) = map (entry (nodes s)) (flat T)"
    using same by (auto simp: entry_def set_flat)
  have ez: "entry ?h0 ?z = (k, v)" by (simp add: entry_def)
  have srt0: "sorted (map fst (map (entry ?h0) (flat T)))"
    by (simp only: ent0 srt)
  have desc: "insert_descend ?h0 t k ?nl (root t) = Some ?y"
    by (rule insert_descend_tree[OF T0])
  have kz: "key (?h0 ?z) = k" by simp
  have S5: "is_tree ?h5 ?nl ?nl (if T = Tip then ?z else root t) ?S"
    by (rule link_tree[OF T0 d zT zn zn nlT kz])
  have yT: "(?y = ?nl) = (T = Tip)"
  proof (cases "T = Tip")
    case True
    then show ?thesis by simp
  next
    case False
    from last_node_in_refs[OF False] nlT show ?thesis using False by metis
  qed
  have rt2: "root ?t2 = (if T = Tip then ?z else root t)" "nil ?t2 = ?nl"
    using yT by auto
  have zy: "?z \<noteq> ?y" using last_node_in[of ?h0 k ?nl T] zT zn by auto
  have dS: "distinct ?F" by (rule distinct_sins[OF d zT])
  have rS: "refs ?S = insert ?z (refs T)" by (rule refs_sins)
  have rootc: "?z \<noteq> root ?t2 \<longrightarrow> color (?h5 (root ?t2)) = BLACK"
  proof
    assume a: "?z \<noteq> root ?t2"
    then have nt: "T \<noteq> Tip" using rt2 by auto
    then have r: "root ?t2 = root t" using rt2 by simp
    have "root t \<noteq> ?z" using a r by simp
    then show "color (?h5 (root ?t2)) = BLACK" using rb r by (simp add: linked_data)
  qed
  have fi: "fix_inv ?h5 ?F ?S ?h5 ?t2 ?z"
    unfolding fix_inv_def using S5 dS rS rootc nb zn rt2 by (simp add: linked_data)
  from insert_fixup_loop_returns[OF fi] obtain h' t' T' z' where
    loop: "insert_fixup_loop (?h5, ?t2, ?z) = Some (h', t')"
    and fi': "fix_inv ?h5 ?F T' h' t' z'" and nt': "nil t' = nil ?t2"
    by blast
  from fi' have T': "is_tree h' (nil t') (nil t') (root t') T'" and d': "distinct (flat T')"
    and F': "flat T' = ?F" and z': "z' \<in> refs T'"
    and nb': "color (h' (nil t')) = BLACK"
    and fr': "\<forall>a. a \<notin> set ?F \<longrightarrow> h' a = ?h5 a"
    and kv': "\<forall>a. key (h' a) = key (?h5 a) \<and> val (h' a) = val (?h5 a)"
    by (auto simp: fix_inv_def)
  let ?h6 = "set_color h' (root t') BLACK"
  let ?s' = "\<lparr>nodes = ?h6, fresh = Suc ?z\<rparr>"
  have fxu: "insert_fixup ?h5 ?t2 ?z = Some (?h6, t')"
    using loop by (simp add: insert_fixup_def)
  have res: "insert_rb s t k v = Some (?s', t')"
    using insert_rb_unfold[OF desc] fxu by simp
  have rT': "refs T' = insert ?z (refs T)"
    using arg_cong[OF F', of set] by (simp add: set_flat rS)
  have rootT': "root t' \<in> refs T'"
  proof -
    have "T' \<noteq> Tip" using z' by auto
    then show ?thesis using T' by (cases T') auto
  qed
  have rn: "root t' \<noteq> nil t'" using rootT' is_tree_nil_notin[OF T'] by auto
  have ent6: "entry ?h6 a = entry ?h0 a" for a
    using kv' by (simp add: entry_def linked_data)
  have ents: "map (entry ?h6) (flat T') = ins_entry (k, v) (map (entry (nodes s)) (flat T))"
  proof -
    have "map (entry ?h6) (flat T') = map (entry ?h0) ?F" using ent6 F' by simp
    also have "\<dots> = ins_entry (entry ?h0 ?z) (map (entry ?h0) (flat T))"
      by (rule flat_sins_entries[OF srt0 kz])
    also have "\<dots> = ins_entry (k, v) (map (entry (nodes s)) (flat T))"
      by (simp only: ent0 ez)
    finally show ?thesis .
  qed
  have inv': "rb_inv ?s' t' T'"
    unfolding rb_inv_def
  proof (intro conjI)
    show "is_tree (nodes ?s') (nil t') (nil t') (root t') T'"
      using T' by (simp add: is_tree_set_color)
    show "distinct (flat T')" by (rule d')
    show "sorted (map fst (map (entry (nodes ?s')) (flat T')))"
      using ents sorted_ins_entry[OF srt, of "(k, v)"] by simp
    show "\<forall>a\<in>refs T'. a < fresh ?s'" using rT' bnd by auto
    show "nil t' < fresh ?s'" using nt' nlb by (simp add: rt2)
    show "color (nodes ?s' (nil t')) = BLACK" using nb' rn by simp
    show "color (nodes ?s' (root t')) = BLACK" by simp
  qed
  have frame: "\<forall>a. a \<notin> refs T \<and> a \<noteq> ?z \<longrightarrow> nodes ?s' a = nodes s a"
  proof (intro allI impI)
    fix a assume a: "a \<notin> refs T \<and> a \<noteq> ?z"
    then have aF: "a \<notin> set ?F" by (simp add: set_flat rS)
    have ar: "a \<noteq> root t'" using rootT' rT' a by auto
    have "?h6 a = h' a" using ar by (simp add: set_color_other)
    also have "\<dots> = ?h5 a" using fr' aF by simp
    also have "\<dots> = ?h0 a"
      by (rule linked_other) (use a last_node_in[of ?h0 k ?nl T] in auto)
    also have "\<dots> = nodes s a" using a by simp
    finally show "nodes ?s' a = nodes s a" by simp
  qed
  have "nil t' = nil t" using nt' by (simp add: rt2)
  with res inv' ents rT' frame show ?thesis by (intro exI[of _ ?s'] exI[of _ t'] exI[of _ T']) simp
qed

lemma make_ranges_valid:
  "\<forall>a\<in>set ns. key (h a) \<le> val (h a) \<Longrightarrow>
   make_ranges h ns = Inr (map (\<lambda>a. to_range (entry h a)) ns)"
  by (induction ns) (auto simp: AddressRange_init_def to_range_def entry_def)

lemma get_address_ranges_inv:
  assumes "set_inv s A T"
  shows "get_address_ranges (nodes s) A = Some (Inr (map to_range (entries s T)))"
proof -
  from assms have T: "is_tree (nodes s) (nil (tree A)) (nil (tree A)) (root (tree A)) T"
    and v: "\<forall>e\<in>set (entries s T). fst e \<le> snd e"
    by (auto simp: set_inv_def rb_inv_def)
  have "inorder (nodes s) (tree A) = Some (flat T)"
    unfolding inorder_def by (rule inorder_from_tree[OF T])
  moreover have "\<forall>a\<in>set (flat T). key (nodes s a) \<le> val (nodes s a)"
    using v by (auto simp: entries_def entry_def)
  ultimately show ?thesis
    by (simp add: get_address_ranges_def make_ranges_valid entries_def)
qed

lemma add_inv:
  assumes inv: "set_inv s A T" and valid: "start r \<le> end_address r"
  shows "\<exists>s' A' T'. add s A r = Some (s', A') \<and> set_inv s' A' T' \<and>
           nil (tree A') = nil (tree A) \<and> fresh s' = Suc (fresh s) \<and>
           entries s' T' = ins_entry (start r, end_address r) (entries s T) \<and>
           address_count A' = address_count A + get_length r \<and>
           refs T' = insert (fresh s) (refs T) \<and>
           (\<forall>a. a \<notin> refs T \<and> a \<noteq> fresh s \<longrightarrow> nodes s' a = nodes s a)"
proof -
  from inv have rb: "rb_inv s (tree A) T"
    and v: "\<forall>e\<in>set (entries s T). fst e \<le> snd e"
    and c: "address_count A = sum_list (map (\<lambda>e. snd e - fst e + 1) (entries s T))"
    by (auto simp: set_inv_def)
  from insert_rb_correct[OF rb, of "start r" "end_address r"] obtain s' t' T' where
    ins: "insert_rb s (tree A) (start r) (end_address r) = Some (s', t')"
    and rb': "rb_inv s' t' T'" and n: "nil t' = nil (tree A)" and f: "fresh s' = Suc (fresh s)"
    and e: "map (entry (nodes s')) (flat T') =
            ins_entry (start r, end_address r) (map (entry (nodes s)) (flat T))"
    and rf: "refs T' = insert (fresh s) (refs T)"
    and fr: "\<forall>a. a \<notin> refs T \<and> a \<noteq> fresh s \<longrightarrow> nodes s' a = nodes s a"
    by blast
  let ?A = "A\<lparr>tree := t', address_count := address_count A + get_length r\<rparr>"
  have a: "add s A r = Some (s', ?A)" using ins by (simp add: add_def)
  have e': "entries s' T' = ins_entry (start r, end_address r) (entries s T)"
    using e by (simp add: entries_def)
  have "set_inv s' ?A T'"
    unfolding set_inv_def
    using rb' v valid c by (simp add: e' set_ins_entry sum_list_ins_entry get_length_def)
  then show ?thesis using a n f e' rf fr
    by (intro exI[of _ s'] exI[of _ ?A] exI[of _ T']) simp
qed

lemma AddressSet_init_empty:
  "\<exists>s1 A. AddressSet_init s None = Some (s1, A) \<and> set_inv s1 A Tip \<and>
      nil (tree A) = fresh s \<and> fresh s1 = Suc (fresh s) \<and> address_count A = 0 \<and>
      (\<forall>a. a \<noteq> fresh s \<longrightarrow> nodes s1 a = nodes s a)"
  by (simp add: AddressSet_init_def RedBlackTree_init_def Let_def set_inv_def rb_inv_def
      entries_def)

lemma to_range_of_range [simp]: "to_range (of_range r) = r"
  by (simp add: to_range_def of_range_def)

lemma map_to_range_ins_entry:
  "map to_range (ins_entry (of_range r) es) = ins_range r (map to_range es)"
  by (induction es) (auto simp: to_range_def of_range_def)

lemma add_ranges:
  assumes inv: "set_inv s A T" and valid: "valid_range r"
  shows "\<exists>s' A' T'. add s A r = Some (s', A') \<and> set_inv s' A' T' \<and>
           nil (tree A') = nil (tree A) \<and> fresh s' = Suc (fresh s) \<and>
           map to_range (entries s' T') = ins_range r (map to_range (entries s T)) \<and>
           address_count A' = address_count A + get_length r \<and>
           refs T' = insert (fresh s) (refs T) \<and>
           (\<forall>a. a \<notin> refs T \<and> a \<noteq> fresh s \<longrightarrow> nodes s' a = nodes s a)"
proof -
  from add_inv[OF inv valid[unfolded valid_range_def]] obtain s' A' T' where
    a: "add s A r = Some (s', A')" "set_inv s' A' T'" "nil (tree A') = nil (tree A)"
      "fresh s' = Suc (fresh s)"
      "entries s' T' = ins_entry (start r, end_address r) (entries s T)"
      "address_count A' = address_count A + get_length r"
      "refs T' = insert (fresh s) (refs T)"
      "\<forall>a. a \<notin> refs T \<and> a \<noteq> fresh s \<longrightarrow> nodes s' a = nodes s a"
    by blast
  have "map to_range (entries s' T') = ins_range r (map to_range (entries s T))"
    using a(5) map_to_range_ins_entry[of r "entries s T"] by (simp add: of_range_def)
  with a show ?thesis by blast
qed

lemma add_all_ranges:
  assumes "set_inv s A T" "\<forall>r\<in>set rs. valid_range r"
  shows "\<exists>s' A' T'. add_all s A rs = Some (s', A') \<and> set_inv s' A' T' \<and>
           nil (tree A') = nil (tree A) \<and> fresh s \<le> fresh s' \<and>
           map to_range (entries s' T') = foldl (\<lambda>xs r. ins_range r xs) (map to_range (entries s T)) rs \<and>
           address_count A' = address_count A + sum_list (map get_length rs) \<and>
           refs T' \<subseteq> refs T \<union> {fresh s..<fresh s'} \<and>
           (\<forall>a. a \<notin> refs T \<and> a < fresh s \<longrightarrow> nodes s' a = nodes s a)"
  using assms
proof (induction rs arbitrary: s A T)
  case Nil
  then show ?case by auto
next
  case (Cons r rs)
  from Cons.prems have v: "valid_range r" and vs: "\<forall>r\<in>set rs. valid_range r" by auto
  from add_ranges[OF Cons.prems(1) v] obtain s1 A1 T1 where
    a: "add s A r = Some (s1, A1)" "set_inv s1 A1 T1" "nil (tree A1) = nil (tree A)"
      "fresh s1 = Suc (fresh s)"
      "map to_range (entries s1 T1) = ins_range r (map to_range (entries s T))"
      "address_count A1 = address_count A + get_length r"
      "refs T1 = insert (fresh s) (refs T)"
      "\<forall>a. a \<notin> refs T \<and> a \<noteq> fresh s \<longrightarrow> nodes s1 a = nodes s a"
    by blast
  from Cons.IH[OF a(2) vs] obtain s' A' T' where
    b: "add_all s1 A1 rs = Some (s', A')" "set_inv s' A' T'" "nil (tree A') = nil (tree A1)"
      "fresh s1 \<le> fresh s'"
      "map to_range (entries s' T') =
         foldl (\<lambda>xs r. ins_range r xs) (map to_range (entries s1 T1)) rs"
      "address_count A' = address_count A1 + sum_list (map get_length rs)"
      "refs T' \<subseteq> refs T1 \<union> {fresh s1..<fresh s'}"
      "\<forall>a. a \<notin> refs T1 \<and> a < fresh s1 \<longrightarrow> nodes s' a = nodes s1 a"
    by blast
  have "add_all s A (r # rs) = Some (s', A')" using a(1) b(1) by simp
  moreover have "nil (tree A') = nil (tree A)" using a(3) b(3) by simp
  moreover have "fresh s \<le> fresh s'" using a(4) b(4) by simp
  moreover have "map to_range (entries s' T') =
      foldl (\<lambda>xs r. ins_range r xs) (map to_range (entries s T)) (r # rs)"
    using a(5) b(5) by simp
  moreover have "address_count A' = address_count A + sum_list (map get_length (r # rs))"
    using a(6) b(6) by simp
  moreover have "refs T' \<subseteq> refs T \<union> {fresh s..<fresh s'}"
    using a(7) a(4) b(4) b(7) by auto
  moreover have "\<forall>a. a \<notin> refs T \<and> a < fresh s \<longrightarrow> nodes s' a = nodes s a"
  proof (intro allI impI)
    fix x assume x: "x \<notin> refs T \<and> x < fresh s"
    then have "x \<notin> refs T1 \<and> x < fresh s1" using a(7) a(4) by auto
    then have "nodes s' x = nodes s1 x" using b(8) by blast
    also have "\<dots> = nodes s x" using a(8) x by auto
    finally show "nodes s' x = nodes s x" .
  qed
  ultimately show ?case using b(2) by blast
qed

lemma build_with_initial:
  "build s init_range rs = build s None (initial_ranges init_range @ rs)"
  by (cases init_range)
     (auto simp: build_def AddressSet_init_def initial_ranges_def Let_def
           split: prod.splits option.splits)

lemma build_ranges:
  assumes "\<forall>r\<in>set (initial_ranges init_range @ rs). valid_range r"
  shows "\<exists>s' A T. build s init_range rs = Some (s', A) \<and> set_inv s' A T \<and>
           map to_range (entries s' T) = stored_order (initial_ranges init_range @ rs) \<and>
           address_count A = sum_list (map get_length (initial_ranges init_range @ rs)) \<and>
           nil (tree A) = fresh s \<and> fresh s < fresh s' \<and>
           refs T \<subseteq> {Suc (fresh s)..<fresh s'} \<and>
           (\<forall>a. a < fresh s \<longrightarrow> nodes s' a = nodes s a)"
proof -
  let ?rs = "initial_ranges init_range @ rs"
  from AddressSet_init_empty[of s] obtain s1 A1 where
    i: "AddressSet_init s None = Some (s1, A1)" "set_inv s1 A1 Tip" "nil (tree A1) = fresh s"
      "fresh s1 = Suc (fresh s)" "address_count A1 = 0"
      "\<forall>a. a \<noteq> fresh s \<longrightarrow> nodes s1 a = nodes s a"
    by blast
  from add_all_ranges[OF i(2) assms] obtain s' A' T' where
    a: "add_all s1 A1 ?rs = Some (s', A')" "set_inv s' A' T'" "nil (tree A') = nil (tree A1)"
      "fresh s1 \<le> fresh s'"
      "map to_range (entries s' T') =
         foldl (\<lambda>xs r. ins_range r xs) (map to_range (entries s1 Tip)) ?rs"
      "address_count A' = address_count A1 + sum_list (map get_length ?rs)"
      "refs T' \<subseteq> refs Tip \<union> {fresh s1..<fresh s'}"
      "\<forall>a. a \<notin> refs Tip \<and> a < fresh s1 \<longrightarrow> nodes s' a = nodes s1 a"
    by blast
  have "build s init_range rs = Some (s', A')"
    by (subst build_with_initial) (simp add: build_def i(1) a(1))
  moreover have "map to_range (entries s' T') = stored_order ?rs"
    using a(5) by (simp add: stored_order_def entries_def)
  moreover have "address_count A' = sum_list (map get_length ?rs)" using a(6) i(5) by simp
  moreover have "nil (tree A') = fresh s" using a(3) i(3) by simp
  moreover have "fresh s < fresh s'" using a(4) i(4) by simp
  moreover have "refs T' \<subseteq> {Suc (fresh s)..<fresh s'}" using a(7) i(4) by simp
  moreover have "\<forall>a. a < fresh s \<longrightarrow> nodes s' a = nodes s a"
    using a(8) i(4) i(6) by simp
  ultimately show ?thesis using a(2) by blast
qed

lemma set_ins_range: "set (ins_range r xs) = insert r (set xs)"
  by (induction xs) auto

lemma sorted_ins_range:
  "sorted (map start xs) \<Longrightarrow> sorted (map start (ins_range r xs))"
  by (induction xs) (auto simp: set_ins_range)

lemma sum_list_ins_range:
  "sum_list (map get_length (ins_range r xs)) = get_length r + sum_list (map get_length xs)"
  by (induction xs) auto

lemma foldl_ins_range_sorted:
  "sorted (map start xs) \<Longrightarrow> sorted (map start (foldl (\<lambda>xs r. ins_range r xs) xs rs))"
  by (induction rs arbitrary: xs) (auto simp: sorted_ins_range)

lemma foldl_ins_range_sum:
  "sum_list (map get_length (foldl (\<lambda>xs r. ins_range r xs) xs rs)) =
   sum_list (map get_length xs) + sum_list (map get_length rs)"
  by (induction rs arbitrary: xs) (auto simp: sum_list_ins_range)

lemma stored_order_sorted: "sorted (map start (stored_order rs))"
  unfolding stored_order_def by (rule foldl_ins_range_sorted) simp

lemma stored_order_sum:
  "sum_list (map get_length (stored_order rs)) = sum_list (map get_length rs)"
  unfolding stored_order_def using foldl_ins_range_sum[of "[]" rs] by simp

text \<open>
  C3: for every set reachable from construction (empty or with one initial range) by a
  sequence of \<open>add\<close> calls with valid ranges, \<open>get_num_addresses()\<close> equals the sum of
  \<open>get_length()\<close> over the ranges that \<open>get_address_ranges()\<close> yields. The construction and
  the calls return, in every store.
\<close>

theorem get_num_addresses_is_sum:
  assumes "\<forall>r\<in>set (initial_ranges init_range @ rs). valid_range r"
  shows "\<exists>s' A ranges. build s init_range rs = Some (s', A) \<and>
           get_address_ranges (nodes s') A = Some (Inr ranges) \<and>
           get_num_addresses A = sum_list (map get_length ranges)"
proof -
  from build_ranges[OF assms, of s] obtain s' A T where
    b: "build s init_range rs = Some (s', A)" "set_inv s' A T"
      "map to_range (entries s' T) = stored_order (initial_ranges init_range @ rs)"
      "address_count A = sum_list (map get_length (initial_ranges init_range @ rs))"
    by blast
  have "get_address_ranges (nodes s') A = Some (Inr (map to_range (entries s' T)))"
    by (rule get_address_ranges_inv[OF b(2)])
  moreover have "get_num_addresses A = sum_list (map get_length (map to_range (entries s' T)))"
    using b(3,4) by (simp add: get_num_addresses_def stored_order_sum)
  ultimately show ?thesis using b(1) by blast
qed

theorem get_num_addresses_is_sum_witness:
  "valid_range (range_of 5 9) \<and> valid_range (range_of 10 20) \<and> valid_range (range_of 15 25) \<and>
   (\<exists>s' A ranges. build example_store (Some (range_of 5 9)) [range_of 10 20, range_of 15 25] = Some (s', A) \<and>
           get_address_ranges (nodes s') A = Some (Inr ranges) \<and>
           get_num_addresses A = sum_list (map get_length ranges))"
proof -
  have v: "\<forall>r\<in>set (initial_ranges (Some (range_of 5 9)) @ [range_of 10 20, range_of 15 25]). valid_range r"
    by (simp add: initial_ranges_def valid_range_def range_of_def)
  have "valid_range (range_of 5 9) \<and> valid_range (range_of 10 20) \<and> valid_range (range_of 15 25)"
    by (simp add: valid_range_def range_of_def)
  with get_num_addresses_is_sum[OF v, of example_store] show ?thesis by blast
qed

text \<open>
  C10: after every finite sequence of \<open>add\<close> calls with valid ranges, the ranges that
  \<open>get_address_ranges()\<close> yields have start addresses in non-decreasing order, also when
  equal or overlapping starts are stored.
\<close>

theorem ranges_sorted_by_start:
  assumes "\<forall>r\<in>set (initial_ranges init_range @ rs). valid_range r"
  shows "\<exists>s' A ranges. build s init_range rs = Some (s', A) \<and>
           get_address_ranges (nodes s') A = Some (Inr ranges) \<and>
           sorted (map start ranges)"
proof -
  from build_ranges[OF assms, of s] obtain s' A T where
    b: "build s init_range rs = Some (s', A)" "set_inv s' A T"
      "map to_range (entries s' T) = stored_order (initial_ranges init_range @ rs)"
    by blast
  have "get_address_ranges (nodes s') A = Some (Inr (map to_range (entries s' T)))"
    by (rule get_address_ranges_inv[OF b(2)])
  moreover have "sorted (map start (map to_range (entries s' T)))"
    unfolding b(3) by (rule stored_order_sorted)
  ultimately show ?thesis using b(1) by blast
qed

theorem ranges_sorted_by_start_witness:
  "valid_range (range_of 30 40) \<and> valid_range (range_of 10 20) \<and> valid_range (range_of 10 12) \<and>
   (\<exists>s' A ranges. build example_store None [range_of 30 40, range_of 10 20, range_of 10 12] = Some (s', A) \<and>
           get_address_ranges (nodes s') A = Some (Inr ranges) \<and>
           sorted (map start ranges))"
proof -
  have v: "\<forall>r\<in>set (initial_ranges None @ [range_of 30 40, range_of 10 20, range_of 10 12]). valid_range r"
    by (simp add: initial_ranges_def valid_range_def range_of_def)
  have "valid_range (range_of 30 40) \<and> valid_range (range_of 10 20) \<and> valid_range (range_of 10 12)"
    by (simp add: valid_range_def range_of_def)
  with ranges_sorted_by_start[OF v, of example_store] show ?thesis by blast
qed

section \<open>Construction of a range\<close>

text \<open>
  C7: constructing an \<open>AddressRange\<close> with \<open>end < start\<close> fails with \<open>ValueError\<close>, and
  no range with swapped bounds comes back; with \<open>start \<le> end\<close> the construction succeeds
  and the range stores the two bounds as given.
\<close>

theorem AddressRange_init_checked:
  "(e < s \<longrightarrow> AddressRange_init s e = Inl ValueError \<and>
               AddressRange_init s e \<noteq> Inr \<lparr>start = e, end_address = s\<rparr>) \<and>
   (s \<le> e \<longrightarrow> (\<exists>r. AddressRange_init s e = Inr r \<and> start r = s \<and> end_address r = e))"
  by (simp add: AddressRange_init_def)

theorem AddressRange_init_checked_witness:
  "(3::int) < 5 \<and> AddressRange_init 5 3 = Inl ValueError \<and>
   AddressRange_init 5 3 \<noteq> Inr \<lparr>start = 3, end_address = 5\<rparr> \<and>
   (2::int) \<le> 7 \<and> (\<exists>r. AddressRange_init 2 7 = Inr r \<and> start r = 2 \<and> end_address r = 7)"
  using AddressRange_init_checked[of 3 5] AddressRange_init_checked[of 7 2] by simp

section \<open>The interval form of contains on an inverted interval\<close>

text \<open>
  C9: for every set (whatever the heap holds) and every pair of addresses with
  \<open>end < start\<close>, \<open>contains(start, end)\<close> returns \<open>True\<close>: the loop body never runs, so no
  lookup is made and nothing is raised.
\<close>

theorem contains_bounds_inverted:
  "e < st \<Longrightarrow> contains_bounds h A st e = Some True"
  by simp

theorem contains_bounds_inverted_witness:
  "(3::int) < 5 \<and>
   contains_bounds (\<lambda>_. \<lparr>key = 0, val = 0, color = BLACK, left = 0, right = 0, parent = 0\<rparr>)
     \<lparr>tree = \<lparr>nil = 0, root = 0\<rparr>, address_count = 0\<rparr> 5 3 = Some True"
  using contains_bounds_inverted[of 3 5] by simp

end
